theory Spec2Isabelle
  imports Main "HOL-Library.Signed_Division"
begin

section \<open>The segmented LRU cache of \<^verbatim>\<open>src/tests/lru_test.cpp\<close>\<close>

subsection \<open>Data model\<close>

text \<open>
  \<^verbatim>\<open>LruNodeBase::State\<close>, in the order of the enum.
\<close>

datatype State = NOMINATED | ADDED | REUSED | DETACHED

text \<open>
  Nodes live at addresses. Address \<open>0\<close> is \<^verbatim>\<open>&dummy\<close>, the sentinel embedded in the
  cache object; every node of the \<^verbatim>\<open>unordered_map\<close> gets an address of its own when it is
  inserted (the container is node based, so the address is stable until the entry is erased).
\<close>

type_synonym addr = nat

abbreviation dummy :: addr where
  "dummy \<equiv> 0"

text \<open>
  What the observable callbacks were asked to do: \<^verbatim>\<open>on_create(key)\<close> and
  \<^verbatim>\<open>on_evict(key, value)\<close> are external code, so each invocation is recorded, oldest first.
\<close>

datatype ('k, 'v) call = Create 'k | Evict 'k 'v

text \<open>
  The cache object together with the part of the heap it owns. The fields \<open>next\<close>, \<open>prev\<close>,
  \<open>state\<close> are those of \<^verbatim>\<open>LruNodeBase\<close>, \<open>in_map\<close> and \<open>value\<close> those of \<^verbatim>\<open>LruNode\<close>, each
  as a function of the node's address; \<open>in_map\<close> holds the key the stored iterator points
  at (\<^verbatim>\<open>in_map->first\<close>). \<open>map_kv\<close> is the member \<^verbatim>\<open>map\<close>: it sends a key to the address of
  its node. \<open>on_create\<close> is \<open>None\<close> for a null \<^verbatim>\<open>std::function\<close>; \<open>on_evict\<close> says whether an
  observer is configured, and \<open>calls\<close> is the record of the invocations made so far.
  \<open>of_key\<close> is the conversion \<^verbatim>\<open>V(key)\<close> of the value type, used on line 65 when no factory
  is configured; it belongs to the instantiation \<^verbatim>\<open>LruCache<K, V>\<close>.

  \<open>fresh\<close> is the address the next inserted map node receives: every node gets an address
  no node had before. The cells of an erased node stay as they were, so a read or write
  through a pointer to an erased node is visible in the model as a read or write at that
  address.

  The \<^verbatim>\<open>int\<close> members are modelled as unbounded integers: \<open>cache_size\<close> only counts up
  to \<open>cache_limit\<close>.
\<close>

record ('k, 'v) LruCache =
  "next" :: "addr \<Rightarrow> addr"
  prev :: "addr \<Rightarrow> addr"
  state :: "addr \<Rightarrow> State"
  in_map :: "addr \<Rightarrow> 'k"
  "value" :: "addr \<Rightarrow> 'v"
  inlet :: addr
  nomination :: addr
  cache_limit :: int
  nominated_limit :: int
  added_limit :: int
  cache_size :: int
  map_kv :: "'k \<rightharpoonup> addr"
  on_create :: "('k \<Rightarrow> 'v) option"
  on_evict :: bool
  of_key :: "'k \<Rightarrow> 'v"
  calls :: "('k, 'v) call list"
  fresh :: addr

subsection \<open>Construction\<close>

text \<open>
  The constructor (lines 41-57). \<^verbatim>\<open>size / 2\<close> and \<^verbatim>\<open>size / 4\<close> are C++ integer divisions,
  which truncate towards zero. A failed \<^verbatim>\<open>assert\<close> aborts: the result is \<open>None\<close>.
  The sentinel is linked to itself and is \<^verbatim>\<open>DETACHED\<close>; \<open>k0\<close> and \<open>v0\<close> stand for the
  key and value fields the sentinel does not have.
\<close>

definition LruCache_new ::
  "('k \<Rightarrow> 'v) \<Rightarrow> 'k \<Rightarrow> 'v \<Rightarrow> int \<Rightarrow> ('k \<Rightarrow> 'v) option \<Rightarrow> bool \<Rightarrow> int \<Rightarrow> int
     \<Rightarrow> ('k, 'v) LruCache option" where
  "LruCache_new conv k0 v0 sz create evict nominated_size added_size =
     (let nl = (if nominated_size \<noteq> 0 then nominated_size else sz sdiv 2);
          al = (if added_size \<noteq> 0 then added_size else nl + sz sdiv 4)
      in if 0 < nl \<and> nl < al \<and> al < sz
         then Some \<lparr> next = (\<lambda>a. a), prev = (\<lambda>a. a), state = (\<lambda>a. DETACHED),
                     in_map = (\<lambda>a. k0), value = (\<lambda>a. v0),
                     inlet = dummy, nomination = dummy,
                     cache_limit = sz, nominated_limit = nl, added_limit = al,
                     cache_size = 0, map_kv = Map.empty,
                     on_create = create, on_evict = evict, of_key = conv,
                     calls = [], fresh = 1 \<rparr>
         else None)"

subsection \<open>List primitives\<close>

text \<open>
  \<^verbatim>\<open>remove_\<close> (lines 80-83): two stores, the second reading the heap the first one left.
\<close>

definition LruCache_remove :: "('k, 'v) LruCache \<Rightarrow> addr \<Rightarrow> ('k, 'v) LruCache" where
  "LruCache_remove c n =
     (let c1 = c\<lparr>prev := (prev c)(next c n := prev c n)\<rparr>
      in c1\<lparr>next := (next c1)(prev c1 n := next c1 n)\<rparr>)"

text \<open>
  \<^verbatim>\<open>insert_before_\<close> (lines 84-89): four stores in the order of the source.
\<close>

definition LruCache_insert_before ::
  "('k, 'v) LruCache \<Rightarrow> addr \<Rightarrow> addr \<Rightarrow> ('k, 'v) LruCache" where
  "LruCache_insert_before c at n =
     (let c1 = c\<lparr>next := (next c)(n := at)\<rparr>;
          c2 = c1\<lparr>prev := (prev c1)(n := prev c1 at)\<rparr>;
          c3 = c2\<lparr>next := (next c2)(prev c2 n := n)\<rparr>
      in c3\<lparr>prev := (prev c3)(at := n)\<rparr>)"

subsection \<open>Promotion\<close>

text \<open>
  The boundary cascade of \<^verbatim>\<open>use_\<close> (lines 100-107).
\<close>

definition use_cascade :: "('k, 'v) LruCache \<Rightarrow> ('k, 'v) LruCache" where
  "use_cascade c =
     (if state c (nomination c) = ADDED then
        (let c1 = c\<lparr>state := (state c)(nomination c := NOMINATED)\<rparr>;
             c2 = c1\<lparr>nomination := next c1 (nomination c1)\<rparr>
         in if state c2 (inlet c2) = REUSED then
              (let c3 = c2\<lparr>state := (state c2)(inlet c2 := ADDED)\<rparr>
               in c3\<lparr>inlet := next c3 (inlet c3)\<rparr>)
            else c2)
      else c)"

text \<open>
  \<^verbatim>\<open>use_\<close> (lines 94-108).
\<close>

definition LruCache_use :: "('k, 'v) LruCache \<Rightarrow> addr \<Rightarrow> ('k, 'v) LruCache" where
  "LruCache_use c n =
     (if state c n \<noteq> NOMINATED then c
      else
        (let c1 = LruCache_remove c n;
             c2 = LruCache_insert_before c1 dummy n;
             c3 = c2\<lparr>state := (state c2)(n := REUSED)\<rparr>
         in use_cascade c3))"

subsection \<open>Insertion and eviction\<close>

text \<open>
  The boundary step of the eviction branch of \<^verbatim>\<open>add_\<close> (lines 120-121).
\<close>

definition add_cascade :: "('k, 'v) LruCache \<Rightarrow> ('k, 'v) LruCache" where
  "add_cascade c =
     (let c1 = c\<lparr>state := (state c)(nomination c := NOMINATED)\<rparr>
      in c1\<lparr>nomination := next c1 (nomination c1)\<rparr>)"

text \<open>
  \<^verbatim>\<open>add_\<close> (lines 109-138). In the eviction branch the key and the value of the node to
  remove are read before \<^verbatim>\<open>map.erase\<close>, and the observer is called last.
\<close>

definition LruCache_add :: "('k, 'v) LruCache \<Rightarrow> addr \<Rightarrow> ('k, 'v) LruCache" where
  "LruCache_add c n =
     (if state c n \<noteq> DETACHED then c
      else
        (let c0 = c\<lparr>state := (state c)(n := ADDED)\<rparr>
         in if cache_size c0 \<ge> cache_limit c0 then
              (let node_to_remove = next c0 dummy;
                   c1 = LruCache_remove c0 node_to_remove;
                   val_to_remove = value c1 node_to_remove;
                   key_to_remove = in_map c1 node_to_remove;
                   c2 = c1\<lparr>map_kv := (map_kv c1)(key_to_remove := None)\<rparr>;
                   c3 = LruCache_insert_before c2 (inlet c2) n;
                   c4 = add_cascade c3
               in if on_evict c4
                  then c4\<lparr>calls := calls c4 @ [Evict key_to_remove val_to_remove]\<rparr>
                  else c4)
            else
              (let c1 =
                 (if cache_size c0 < nominated_limit c0 then
                    c0\<lparr>state := (state c0)(n := NOMINATED)\<rparr>
                  else if cache_size c0 = nominated_limit c0 then
                    c0\<lparr>nomination := n\<rparr>
                  else
                    (let d1 = c0\<lparr>inlet := prev c0 (inlet c0)\<rparr>;
                         d2 = (if nomination d1 = inlet d1 then d1\<lparr>nomination := n\<rparr> else d1)
                     in d2\<lparr>state := (state d2)(inlet d2 := REUSED)\<rparr>));
                   c2 = c1\<lparr>cache_size := cache_size c1 + 1\<rparr>
               in LruCache_insert_before c2 (inlet c2) n)))"

subsection \<open>The facade\<close>

text \<open>
  \<^verbatim>\<open>map.insert\<close> with the back-reference (lines 65-66): a copy of the temporary node goes
  into a new map node. Its state is \<^verbatim>\<open>DETACHED\<close>; its links are stale (those of the
  temporary) and are written by \<^verbatim>\<open>insert_before_\<close> before anything reads them.
\<close>

definition map_insert :: "('k, 'v) LruCache \<Rightarrow> 'k \<Rightarrow> 'v \<Rightarrow> ('k, 'v) LruCache" where
  "map_insert c key v =
     c\<lparr>map_kv := (map_kv c)(key \<mapsto> fresh c),
       state := (state c)(fresh c := DETACHED),
       value := (value c)(fresh c := v),
       in_map := (in_map c)(fresh c := key),
       fresh := fresh c + 1\<rparr>"

text \<open>
  \<^verbatim>\<open>operator[]\<close> (lines 60-69). On a miss the value comes from the factory when there is
  one and from \<^verbatim>\<open>V(key)\<close> otherwise. The result is the value the returned reference points
  at, and the cache after the call.
\<close>

definition fetch :: "('k, 'v) LruCache \<Rightarrow> 'k \<Rightarrow> 'v \<times> ('k, 'v) LruCache" where
  "fetch c key =
     (case map_kv c key of
        Some i \<Rightarrow> (let c1 = LruCache_use c i in (value c1 i, c1))
      | None \<Rightarrow>
          (let c1 = (case on_create c of
                       Some f \<Rightarrow> c\<lparr>calls := calls c @ [Create key]\<rparr>
                     | None \<Rightarrow> c);
               v = (case on_create c of Some f \<Rightarrow> f key | None \<Rightarrow> of_key c key);
               r = fresh c1;
               c2 = map_insert c1 key v;
               c3 = LruCache_add c2 r
           in (value c3 r, c3)))"

text \<open>
  A run of \<^verbatim>\<open>operator[]\<close> calls, oldest first.
\<close>

fun fetch_all :: "('k, 'v) LruCache \<Rightarrow> 'k list \<Rightarrow> ('k, 'v) LruCache" where
  "fetch_all c [] = c"
| "fetch_all c (k # ks) = fetch_all (snd (fetch c k)) ks"

subsection \<open>The zone walk of the test helper\<close>

text \<open>
  \<^verbatim>\<open>check_list\<close> (lines 148-160) follows \<open>next\<close> from the current node until it meets the
  terminator. \<open>walk\<close> does the same with a bound on the number of steps: it gives the nodes
  visited and the node it stopped at, or \<open>None\<close> when the terminator is not met in time.
\<close>

fun walk :: "(addr \<Rightarrow> addr) \<Rightarrow> nat \<Rightarrow> addr \<Rightarrow> addr \<Rightarrow> addr list option" where
  "walk nx 0 n term = (if n = term then Some [] else None)"
| "walk nx (Suc fuel) n term =
     (if n = term then Some []
      else (case walk nx fuel (nx n) term of None \<Rightarrow> None | Some ns \<Rightarrow> Some (n # ns)))"

text \<open>
  \<^verbatim>\<open>check\<close> (lines 142-164) makes three such walks, each starting where the previous one
  stopped: from the sentinel's successor to \<open>nomination\<close>, from there to \<open>inlet\<close>, from there
  to the sentinel. The number of nodes ever allocated bounds every walk that ends.
\<close>

definition zones :: "('k, 'v) LruCache \<Rightarrow> (addr list \<times> addr list \<times> addr list) option" where
  "zones c =
     (case walk (next c) (fresh c) (next c dummy) (nomination c) of None \<Rightarrow> None
      | Some z1 \<Rightarrow>
     (case walk (next c) (fresh c) (nomination c) (inlet c) of None \<Rightarrow> None
      | Some z2 \<Rightarrow>
     (case walk (next c) (fresh c) (inlet c) dummy of None \<Rightarrow> None
      | Some z3 \<Rightarrow> Some (z1, z2, z3))))"

text \<open>
  The layout \<^verbatim>\<open>check\<close> asserts, and line 7 documents: the three walks end, and they visit
  \<^verbatim>\<open>NOMINATED\<close> nodes only, then \<^verbatim>\<open>ADDED\<close> nodes only, then \<^verbatim>\<open>REUSED\<close> nodes only.
\<close>

definition layout_ok :: "('k, 'v) LruCache \<Rightarrow> bool" where
  "layout_ok c =
     (case zones c of None \<Rightarrow> False
      | Some (z1, z2, z3) \<Rightarrow>
          list_all (\<lambda>a. state c a = NOMINATED) z1 \<and>
          list_all (\<lambda>a. state c a = ADDED) z2 \<and>
          list_all (\<lambda>a. state c a = REUSED) z3)"

subsection \<open>The instantiation of the test\<close>

text \<open>
  \<^verbatim>\<open>LruCache<int, int>\<close>: the conversion \<^verbatim>\<open>V(key)\<close> is the identity on \<^verbatim>\<open>int\<close>, and a
  value-initialised \<^verbatim>\<open>int\<close> is zero.
\<close>

definition int_of_key :: "int \<Rightarrow> int" where
  "int_of_key k = k"

definition int_default :: int where
  "int_default = 0"

text \<open>
  The cache of \<^verbatim>\<open>TEST(LruTest, Basic)\<close> (line 167), here with an eviction observer, and the
  same cache without callbacks.
\<close>

definition test_cache :: "(int, int) LruCache" where
  "test_cache = the (LruCache_new int_of_key 0 0 4 (Some (\<lambda>v. v * 10)) True 0 0)"

definition plain_cache :: "(int, int) LruCache" where
  "plain_cache = the (LruCache_new int_of_key 0 0 4 None False 0 0)"

text \<open>
  States the properties below are checked on: the cache of the test after its first four
  insertions (line 176: \<^verbatim>\<open>{0, 1}, {3}, {2}\<close>), the cache without callbacks after the same
  insertions, and the cache of the test after a key was inserted, fetched again at once,
  and three more keys were inserted.
\<close>

definition full_cache :: "(int, int) LruCache" where
  "full_cache = fetch_all test_cache [0, 1, 2, 3]"

definition plain_full :: "(int, int) LruCache" where
  "plain_full = fetch_all plain_cache [0, 1, 2, 3]"

definition early_hit_cache :: "(int, int) LruCache" where
  "early_hit_cache = fetch_all test_cache [1, 1, 2, 3, 4]"

text \<open>
  \<^verbatim>\<open>add_\<close> on a full cache up to its boundary step: lines 112-119 (tag the new node
  \<^verbatim>\<open>ADDED\<close>, unlink the node after the sentinel, erase its map entry, link the new node
  before \<open>inlet\<close>). Lines 120-121 run in the state this gives.
\<close>

definition add_before_step :: "('k, 'v) LruCache \<Rightarrow> addr \<Rightarrow> ('k, 'v) LruCache" where
  "add_before_step c n =
     (let c0 = c\<lparr>state := (state c)(n := ADDED)\<rparr>;
          node_to_remove = next c0 dummy;
          c1 = LruCache_remove c0 node_to_remove;
          key_to_remove = in_map c1 node_to_remove;
          c2 = c1\<lparr>map_kv := (map_kv c1)(key_to_remove := None)\<rparr>
      in LruCache_insert_before c2 (inlet c2) n)"

text \<open>
  \<^verbatim>\<open>operator[]\<close> for a missing key on a full cache, up to the same point: lines 65-67 and
  then lines 112-119 of \<^verbatim>\<open>add_\<close>.
\<close>

definition miss_before_step :: "('k, 'v) LruCache \<Rightarrow> 'k \<Rightarrow> ('k, 'v) LruCache" where
  "miss_before_step c key =
     (let c1 = (case on_create c of
                  Some f \<Rightarrow> c\<lparr>calls := calls c @ [Create key]\<rparr>
                | None \<Rightarrow> c);
          v = (case on_create c of Some f \<Rightarrow> f key | None \<Rightarrow> of_key c key)
      in add_before_step (map_insert c1 key v) (fresh c1))"

text \<open>
  The cache of the test in the middle of \<^verbatim>\<open>cache[4]\<close>, its fifth insertion: after line 119
  of \<^verbatim>\<open>add_\<close> and before the boundary step of lines 120-121 (the new node has address 5).
\<close>

definition mid_insert :: "(int, int) LruCache" where
  "mid_insert =
     (let c = map_insert (full_cache\<lparr>calls := calls full_cache @ [Create 4]\<rparr>) 4 40;
          c0 = c\<lparr>state := (state c)(5 := ADDED)\<rparr>;
          node_to_remove = next c0 dummy;
          c1 = LruCache_remove c0 node_to_remove;
          c2 = c1\<lparr>map_kv := (map_kv c1)(in_map c1 node_to_remove := None)\<rparr>
      in LruCache_insert_before c2 (inlet c2) 5)"

text \<open>
  A cache of capacity 3 with \<open>nominated_limit = 1\<close> and \<open>added_limit = 2\<close>, and the state
  it is in after \<^verbatim>\<open>cache[0]; cache[1]; cache[0]; cache[1]; cache[2];\<close>.
\<close>

definition small_cache :: "(int, int) LruCache" where
  "small_cache = the (LruCache_new int_of_key 0 0 3 (Some (\<lambda>v. v * 10)) True 1 2)"

definition drained_cache :: "(int, int) LruCache" where
  "drained_cache = fetch_all small_cache [0, 1, 0, 1, 2]"

text \<open>
  The nodes, among the sentinel and the map nodes allocated so far, whose state tag is
  \<^verbatim>\<open>NOMINATED\<close> in \<open>c'\<close> and was not in \<open>c\<close>.
\<close>

definition turned_nominated :: "('k, 'v) LruCache \<Rightarrow> ('k, 'v) LruCache \<Rightarrow> addr list" where
  "turned_nominated c c' =
     filter (\<lambda>m. state c m \<noteq> NOMINATED \<and> state c' m = NOMINATED) [0..<fresh c]"

section \<open>The ring and its zones as lists\<close>

text \<open>
  \<open>linked nx pv xs\<close>: each node of \<open>xs\<close> is the \<open>prev\<close> of the one after it, which is its
  \<open>next\<close>.
\<close>

fun linked :: "(addr \<Rightarrow> addr) \<Rightarrow> (addr \<Rightarrow> addr) \<Rightarrow> addr list \<Rightarrow> bool" where
  "linked nx pv [] = True"
| "linked nx pv [a] = True"
| "linked nx pv (a # b # xs) = (nx a = b \<and> pv b = a \<and> linked nx pv (b # xs))"

text \<open>
  \<open>dll nx pv ns\<close>: the circular list through the sentinel holds the nodes \<open>ns\<close>, each once,
  from the sentinel's successor (the tail) to its predecessor (the head).
\<close>

definition dll :: "(addr \<Rightarrow> addr) \<Rightarrow> (addr \<Rightarrow> addr) \<Rightarrow> addr list \<Rightarrow> bool" where
  "dll nx pv ns \<longleftrightarrow> distinct (dummy # ns) \<and> linked nx pv (dummy # ns @ [dummy])"

text \<open>
  \<open>booked c ns\<close>: the counters and the map agree with the ring \<open>ns\<close>. The ring has
  \<open>cache_size\<close> nodes, at most \<open>cache_limit\<close>; the limits are ordered as the constructor
  asserts; the map sends each key to a node of the ring that holds this key, and every
  node of the ring is reached so; all nodes of the ring were allocated.
\<close>

definition booked :: "('k, 'v) LruCache \<Rightarrow> addr list \<Rightarrow> bool" where
  "booked c ns \<longleftrightarrow>
     int (length ns) = cache_size c \<and>
     cache_size c \<le> cache_limit c \<and>
     0 < nominated_limit c \<and> nominated_limit c < added_limit c \<and>
     added_limit c < cache_limit c \<and>
     (\<forall>k a. map_kv c k = Some a \<longleftrightarrow> a \<in> set ns \<and> in_map c a = k) \<and>
     (\<forall>a\<in>set ns. a < fresh c) \<and> 0 < fresh c"

text \<open>
  \<open>marked c p1 p2 z3\<close>: the ring is \<open>p1 @ p2 @ z3\<close>, cut at the two markers. \<open>nomination\<close> is
  the first node of \<open>p2\<close> and \<open>inlet\<close> the first node of \<open>z3\<close> (the next zone's first node, or
  the sentinel, when the zone is empty). Every node from \<open>inlet\<close> on is \<^verbatim>\<open>REUSED\<close>; no node from
  \<open>nomination\<close> on is \<^verbatim>\<open>NOMINATED\<close>; once \<open>inlet\<close> has left the sentinel the node before it is
  \<^verbatim>\<open>ADDED\<close> and at least two nodes precede it. The sentinel stays \<^verbatim>\<open>DETACHED\<close>. The markers
  leave the sentinel when \<open>cache_size\<close> passes \<open>nominated_limit\<close> and \<open>nominated_limit + 1\<close>.
  This is weaker than the documented layout: \<open>p1\<close> may hold \<^verbatim>\<open>REUSED\<close> nodes and \<open>p2\<close> may
  hold \<^verbatim>\<open>REUSED\<close> nodes.
\<close>

definition marked :: "('k, 'v) LruCache \<Rightarrow> addr list \<Rightarrow> addr list \<Rightarrow> addr list \<Rightarrow> bool" where
  "marked c p1 p2 z3 \<longleftrightarrow>
     nomination c = hd (p2 @ z3 @ [dummy]) \<and>
     inlet c = hd (z3 @ [dummy]) \<and>
     state c dummy = DETACHED \<and>
     (\<forall>a\<in>set z3. state c a = REUSED) \<and>
     (\<forall>a\<in>set p2. state c a \<noteq> NOMINATED) \<and>
     (z3 \<noteq> [] \<longrightarrow> state c (last p2) = ADDED \<and> 2 \<le> length (p1 @ p2)) \<and>
     (p2 = [] \<longleftrightarrow> cache_size c \<le> nominated_limit c) \<and>
     (z3 = [] \<longleftrightarrow> cache_size c \<le> nominated_limit c + 1)"

definition zoned :: "('k, 'v) LruCache \<Rightarrow> addr list \<Rightarrow> addr list \<Rightarrow> addr list \<Rightarrow> bool" where
  "zoned c p1 p2 z3 \<longleftrightarrow>
     dll (next c) (prev c) (p1 @ p2 @ z3) \<and> booked c (p1 @ p2 @ z3) \<and> marked c p1 p2 z3"

text \<open>
  The invariant of the cache: some cut of the ring into three zones is \<open>zoned\<close>.
\<close>

definition well_formed :: "('k, 'v) LruCache \<Rightarrow> bool" where
  "well_formed c \<longleftrightarrow> (\<exists>p1 p2 z3. zoned c p1 p2 z3)"

text \<open>
  \<open>strict c p1 p2 z3\<close>: the documented layout on top of \<open>zoned\<close>. The first zone holds
  \<^verbatim>\<open>NOMINATED\<close> nodes only, as many as there are entries up to \<open>nominated_limit\<close>, and the
  second zone holds \<^verbatim>\<open>ADDED\<close> nodes only.
\<close>

definition strict :: "('k, 'v) LruCache \<Rightarrow> addr list \<Rightarrow> addr list \<Rightarrow> addr list \<Rightarrow> bool" where
  "strict c p1 p2 z3 \<longleftrightarrow>
     zoned c p1 p2 z3 \<and> (\<forall>a\<in>set p1. state c a = NOMINATED) \<and>
     (\<forall>a\<in>set p2. state c a = ADDED) \<and>
     int (length p1) = min (cache_size c) (nominated_limit c)"

text \<open>
  \<open>no_early_hit c ks\<close>: in the run of calls \<open>ks\<close> from \<open>c\<close>, no call fetches a key whose node
  is \<^verbatim>\<open>NOMINATED\<close> while the cache holds at most \<open>nominated_limit + 1\<close> entries.
\<close>

fun no_early_hit :: "('k, 'v) LruCache \<Rightarrow> 'k list \<Rightarrow> bool" where
  "no_early_hit c [] = True"
| "no_early_hit c (k # ks) =
     ((case map_kv c k of
         Some n \<Rightarrow> state c n = NOMINATED \<longrightarrow> nominated_limit c + 1 < cache_size c
       | None \<Rightarrow> True)
      \<and> no_early_hit (snd (fetch c k)) ks)"

section \<open>Properties\<close>

subsection \<open>The test's caches\<close>

lemma test_cache_new:
  "LruCache_new int_of_key 0 0 4 (Some (\<lambda>v. v * 10)) True 0 0 = Some test_cache"
  by (simp add: test_cache_def LruCache_new_def signed_divide_int_def)

lemma plain_cache_new:
  "LruCache_new int_of_key 0 0 4 None False 0 0 = Some plain_cache"
  by (simp add: plain_cache_def LruCache_new_def signed_divide_int_def)



lemma test_scenario:
  "layout_ok (fetch_all test_cache [0, 1, 2, 3, 4, 2, 4, 3, 5])"
  "map (in_map (fetch_all test_cache [0, 1, 2, 3, 4, 2, 4, 3, 5]))
     (the (walk (next (fetch_all test_cache [0, 1, 2, 3, 4, 2, 4, 3, 5])) 7
        (next (fetch_all test_cache [0, 1, 2, 3, 4, 2, 4, 3, 5]) dummy) dummy)) = [4, 2, 5, 3]"
  by code_simp+

subsection \<open>Linked lists\<close>

lemma linked_append:
  "linked nx pv (xs @ a # ys) \<longleftrightarrow> linked nx pv (xs @ [a]) \<and> linked nx pv (a # ys)"
  by (induction nx pv xs rule: linked.induct) auto

lemma linked_next_upd:
  "u \<notin> set (butlast xs) \<Longrightarrow> linked (nx(u := v)) pv xs = linked nx pv xs"
  by (induction nx pv xs rule: linked.induct) auto

lemma linked_prev_upd:
  "u \<notin> set (tl xs) \<Longrightarrow> linked nx (pv(u := v)) xs = linked nx pv xs"
  by (induction nx pv xs rule: linked.induct) auto

lemma linked_link:
  "linked nx pv (xs @ a # b # ys) \<Longrightarrow> nx a = b \<and> pv b = a"
  by (induction nx pv xs rule: linked.induct) auto

lemma dll_next:
  assumes "dll nx pv (as @ a # bs)"
  shows "nx a = hd (bs @ [dummy])"
proof -
  from assms have "linked nx pv ((dummy # as) @ a # hd (bs @ [dummy]) # tl (bs @ [dummy]))"
    by (simp add: dll_def)
  then show ?thesis by (rule linked_link [THEN conjunct1])
qed

lemma dll_prev:
  assumes "dll nx pv (as @ a # bs)"
  shows "pv a = last (dummy # as)"
proof -
  from assms have "linked nx pv (butlast (dummy # as) @ last (dummy # as) # a # bs @ [dummy])"
    by (simp add: dll_def del: butlast.simps last.simps) (metis append_butlast_last_id append_Cons append_Nil append_assoc list.distinct(1))
  then show ?thesis by (rule linked_link [THEN conjunct2])
qed

lemma dll_next_dummy:
  assumes "dll nx pv ns"
  shows "nx dummy = hd (ns @ [dummy])"
proof -
  from assms have "linked nx pv ([] @ dummy # hd (ns @ [dummy]) # tl (ns @ [dummy]))"
    by (simp add: dll_def)
  then show ?thesis by (rule linked_link [THEN conjunct1])
qed

lemma dll_prev_dummy:
  assumes "dll nx pv ns"
  shows "pv dummy = last (dummy # ns)"
proof -
  from assms have "linked nx pv (butlast (dummy # ns) @ last (dummy # ns) # dummy # [])"
    by (simp add: dll_def del: butlast.simps last.simps) (metis append_butlast_last_id append_Cons append_Nil append_assoc list.distinct(1))
  then show ?thesis by (rule linked_link [THEN conjunct2])
qed


lemma LruCache_remove_eq:
  "LruCache_remove c n =
     c\<lparr>prev := (prev c)(next c n := prev c n), next := (next c)(prev c n := next c n)\<rparr>"
  by (simp add: LruCache_remove_def Let_def)

lemma LruCache_insert_before_eq:
  "LruCache_insert_before c at n =
     c\<lparr>next := (next c)(n := at, prev c at := n), prev := (prev c)(n := prev c at, at := n)\<rparr>"
  by (simp add: LruCache_insert_before_def Let_def)

lemma linked_unlink:
  assumes ch: "linked nx pv (xs @ a # n # b # ys)"
    and a1: "a \<notin> set xs" and a2: "a \<notin> set (butlast (b # ys))"
    and b1: "b \<notin> set ys" and b2: "b \<notin> set (tl (xs @ [a]))"
  shows "linked (nx(a := b)) (pv(b := a)) (xs @ a # b # ys)"
proof -
  from ch linked_append [of nx pv xs a "n # b # ys"]
  have l: "linked nx pv (xs @ [a])" and r: "linked nx pv (b # ys)"
    by simp_all
  have "linked (nx(a := b)) (pv(b := a)) (xs @ [a])"
    using l a1 b2 by (simp add: linked_next_upd linked_prev_upd)
  moreover have "linked (nx(a := b)) (pv(b := a)) (b # ys)"
    using r a2 b1 by (simp add: linked_next_upd linked_prev_upd)
  ultimately show ?thesis
    using linked_append [of "nx(a := b)" "pv(b := a)" xs a "b # ys"] by simp
qed

lemma linked_link_in:
  assumes ch: "linked nx pv (xs @ a # b # ys)"
    and n: "n \<notin> set (xs @ a # b # ys)"
    and a1: "a \<notin> set xs" and a2: "a \<notin> set (butlast (b # ys))"
    and b1: "b \<notin> set ys" and b2: "b \<notin> set (tl (xs @ [a]))"
  shows "linked (nx(n := b, a := n)) (pv(n := a, b := n)) (xs @ a # n # b # ys)"
proof -
  from ch linked_append [of nx pv xs a "b # ys"]
  have l: "linked nx pv (xs @ [a])" and r: "linked nx pv (b # ys)"
    by simp_all
  have n1: "n \<notin> set (butlast (xs @ [a]))" "n \<notin> set (tl (xs @ [a]))"
    "n \<notin> set (butlast (b # ys))" "n \<notin> set (tl (b # ys))"
    using n by (auto dest: in_set_butlastD) (cases xs; simp)
  have "linked (nx(n := b)) (pv(n := a)) (xs @ [a])"
    using l n1 by (simp add: linked_next_upd linked_prev_upd)
  then have "linked (nx(n := b, a := n)) (pv(n := a, b := n)) (xs @ [a])"
    using a1 b2 by (simp add: linked_next_upd linked_prev_upd)
  moreover
  have "linked (nx(n := b)) (pv(n := a)) (b # ys)"
    using r n1 by (simp add: linked_next_upd linked_prev_upd)
  then have "linked (nx(n := b, a := n)) (pv(n := a, b := n)) (b # ys)"
    using a2 b1 by (simp add: linked_next_upd linked_prev_upd)
  ultimately show ?thesis
    using linked_append [of "nx(n := b, a := n)" "pv(n := a, b := n)" xs a "n # b # ys"] n
    by auto
qed

text \<open>The linearised cycle \<open>dummy # ns @ [dummy]\<close>, cut at a node or between two nodes.\<close>

lemma cycle_cut:
  assumes "distinct (dummy # as @ bs)"
  obtains xs a b ys where "dummy # as = xs @ [a]" and "bs @ [dummy] = b # ys"
    and "a \<notin> set xs" and "a \<notin> set (butlast (b # ys))"
    and "b \<notin> set ys" and "b \<notin> set (tl (xs @ [a]))"
proof -
  obtain xs a where xa: "dummy # as = xs @ [a]"
    by (metis append_butlast_last_id list.distinct(1))
  obtain b ys where bys: "bs @ [dummy] = b # ys"
    by (cases bs) auto
  have d1: "distinct (xs @ [a])" "set (xs @ [a]) \<inter> set bs = {}" "distinct bs"
    using assms xa by (auto simp flip: xa)
  have a1: "a \<notin> set xs" using d1 by simp
  have bl: "butlast (b # ys) = bs" using bys by (metis butlast_snoc)
  have a2: "a \<notin> set (butlast (b # ys))" using d1 bl by auto
  have tl: "tl (xs @ [a]) = as" using xa by (metis list.sel(3))
  have b2: "b \<notin> set (tl (xs @ [a]))"
  proof (cases bs)
    case Nil
    then show ?thesis using bys tl assms by auto
  next
    case (Cons b' bs')
    then show ?thesis using bys tl assms by auto
  qed
  have b1: "b \<notin> set ys"
  proof (cases bs)
    case Nil
    then show ?thesis using bys by auto
  next
    case (Cons b' bs')
    then show ?thesis using bys assms by auto
  qed
  show ?thesis using that xa bys a1 a2 b1 b2 by blast
qed

lemma dll_unlink:
  assumes "dll nx pv (as @ n # bs)"
  shows "dll (nx(last (dummy # as) := hd (bs @ [dummy]))) (pv(hd (bs @ [dummy]) := last (dummy # as)))
           (as @ bs)"
proof -
  have d: "distinct (dummy # as @ bs)"
    using assms by (simp add: dll_def)
  from cycle_cut [OF d] obtain xs a b ys where
    xa: "dummy # as = xs @ [a]" and bys: "bs @ [dummy] = b # ys"
    and side: "a \<notin> set xs" "a \<notin> set (butlast (b # ys))" "b \<notin> set ys" "b \<notin> set (tl (xs @ [a]))"
    by blast
  have "dummy # (as @ n # bs) @ [dummy] = (dummy # as) @ n # (bs @ [dummy])" by simp
  also have "\<dots> = xs @ a # n # b # ys" unfolding xa bys by simp
  finally have ch: "linked nx pv (xs @ a # n # b # ys)"
    using assms by (simp add: dll_def)
  have la: "last (dummy # as) = a" unfolding xa by simp
  have hb: "hd (bs @ [dummy]) = b" unfolding bys by simp
  have "dummy # (as @ bs) @ [dummy] = (dummy # as) @ (bs @ [dummy])" by simp
  also have "\<dots> = xs @ a # b # ys" unfolding xa bys by simp
  finally have eq: "dummy # (as @ bs) @ [dummy] = xs @ a # b # ys" .
  show ?thesis
    unfolding dll_def la hb eq using linked_unlink [OF ch side] d by simp
qed

lemma dll_link_in:
  assumes "dll nx pv (as @ bs)" and n: "n \<notin> set (dummy # as @ bs)"
  shows "dll (nx(n := hd (bs @ [dummy]), last (dummy # as) := n))
             (pv(n := last (dummy # as), hd (bs @ [dummy]) := n)) (as @ n # bs)"
proof -
  have d: "distinct (dummy # as @ bs)"
    using assms by (simp add: dll_def)
  from cycle_cut [OF d] obtain xs a b ys where
    xa: "dummy # as = xs @ [a]" and bys: "bs @ [dummy] = b # ys"
    and side: "a \<notin> set xs" "a \<notin> set (butlast (b # ys))" "b \<notin> set ys" "b \<notin> set (tl (xs @ [a]))"
    by blast
  have "dummy # (as @ bs) @ [dummy] = (dummy # as) @ (bs @ [dummy])" by simp
  also have "\<dots> = xs @ a # b # ys" unfolding xa bys by simp
  finally have eq: "dummy # (as @ bs) @ [dummy] = xs @ a # b # ys" .
  then have ch: "linked nx pv (xs @ a # b # ys)"
    using assms by (simp add: dll_def)
  have "set (xs @ a # b # ys) = set (dummy # as @ bs)"
    unfolding eq [symmetric] by auto
  then have n': "n \<notin> set (xs @ a # b # ys)" using n by simp
  have la: "last (dummy # as) = a" unfolding xa by simp
  have hb: "hd (bs @ [dummy]) = b" unfolding bys by simp
  have "dummy # (as @ n # bs) @ [dummy] = (dummy # as) @ n # (bs @ [dummy])" by simp
  also have "\<dots> = xs @ a # n # b # ys" unfolding xa bys by simp
  finally have eq2: "dummy # (as @ n # bs) @ [dummy] = xs @ a # n # b # ys" .
  show ?thesis
    unfolding dll_def la hb eq2 using linked_link_in [OF ch n' side] d n by simp
qed

subsection \<open>The list primitives on the ring\<close>

lemma dll_cut_prev:
  assumes "dll nx pv (as @ bs)"
  shows "pv (hd (bs @ [dummy])) = last (dummy # as)"
proof (cases bs)
  case Nil
  then show ?thesis using dll_prev_dummy [OF assms] by simp
next
  case (Cons b bs')
  then show ?thesis using dll_prev [of nx pv as b bs'] assms by simp
qed

lemma dll_cut_next:
  assumes "dll nx pv (as @ bs)"
  shows "nx (last (dummy # as)) = hd (bs @ [dummy])"
proof (cases as rule: rev_cases)
  case Nil
  then show ?thesis using dll_next_dummy [OF assms] by simp
next
  case (snoc as' a)
  then show ?thesis using dll_next [of nx pv as' a bs] assms by simp
qed

lemma remove_dll:
  assumes "dll (next c) (prev c) (as @ n # bs)"
  shows "dll (next (LruCache_remove c n)) (prev (LruCache_remove c n)) (as @ bs)"
  using dll_unlink [OF assms] dll_next [OF assms] dll_prev [OF assms]
  by (simp add: LruCache_remove_eq)

lemma remove_stale:
  assumes "dll (next c) (prev c) (as @ n # bs)"
  shows "next (LruCache_remove c n) n = next c n"
proof -
  have "last (dummy # as) \<noteq> n"
    using assms by (cases as rule: rev_cases) (auto simp: dll_def)
  then show ?thesis
    using dll_prev [OF assms] by (simp add: LruCache_remove_eq)
qed

lemma insert_dll:
  assumes "dll (next c) (prev c) (as @ bs)" and "n \<notin> set (dummy # as @ bs)"
    and "at = hd (bs @ [dummy])"
  shows "dll (next (LruCache_insert_before c at n)) (prev (LruCache_insert_before c at n))
           (as @ n # bs)"
  using dll_link_in [OF assms(1,2)] dll_cut_prev [OF assms(1)] assms(3)
  by (simp add: LruCache_insert_before_eq)

lemma remove_fields [simp]:
  "state (LruCache_remove c n) = state c"
  "in_map (LruCache_remove c n) = in_map c"
  "value (LruCache_remove c n) = value c"
  "inlet (LruCache_remove c n) = inlet c"
  "nomination (LruCache_remove c n) = nomination c"
  "cache_limit (LruCache_remove c n) = cache_limit c"
  "nominated_limit (LruCache_remove c n) = nominated_limit c"
  "added_limit (LruCache_remove c n) = added_limit c"
  "cache_size (LruCache_remove c n) = cache_size c"
  "map_kv (LruCache_remove c n) = map_kv c"
  "on_create (LruCache_remove c n) = on_create c"
  "on_evict (LruCache_remove c n) = on_evict c"
  "of_key (LruCache_remove c n) = of_key c"
  "calls (LruCache_remove c n) = calls c"
  "fresh (LruCache_remove c n) = fresh c"
  by (simp_all add: LruCache_remove_eq)

lemma insert_fields [simp]:
  "state (LruCache_insert_before c at n) = state c"
  "in_map (LruCache_insert_before c at n) = in_map c"
  "value (LruCache_insert_before c at n) = value c"
  "inlet (LruCache_insert_before c at n) = inlet c"
  "nomination (LruCache_insert_before c at n) = nomination c"
  "cache_limit (LruCache_insert_before c at n) = cache_limit c"
  "nominated_limit (LruCache_insert_before c at n) = nominated_limit c"
  "added_limit (LruCache_insert_before c at n) = added_limit c"
  "cache_size (LruCache_insert_before c at n) = cache_size c"
  "map_kv (LruCache_insert_before c at n) = map_kv c"
  "on_create (LruCache_insert_before c at n) = on_create c"
  "on_evict (LruCache_insert_before c at n) = on_evict c"
  "of_key (LruCache_insert_before c at n) = of_key c"
  "calls (LruCache_insert_before c at n) = calls c"
  "fresh (LruCache_insert_before c at n) = fresh c"
  by (simp_all add: LruCache_insert_before_eq)

text \<open>Lines 97-98: the node goes to the head of the ring.\<close>

lemma move_to_head_dll:
  assumes "dll (next c) (prev c) (xs @ p # ys)"
  shows "dll (next (LruCache_insert_before (LruCache_remove c p) dummy p))
             (prev (LruCache_insert_before (LruCache_remove c p) dummy p)) (xs @ ys @ [p])"
proof -
  have "dll (next (LruCache_remove c p)) (prev (LruCache_remove c p)) ((xs @ ys) @ [])"
    using remove_dll [OF assms] by simp
  moreover have "p \<notin> set (dummy # (xs @ ys) @ [])"
    using assms by (auto simp: dll_def)
  ultimately have "dll (next (LruCache_insert_before (LruCache_remove c p) dummy p))
             (prev (LruCache_insert_before (LruCache_remove c p) dummy p)) ((xs @ ys) @ p # [])"
    by (rule insert_dll) simp
  then show ?thesis by simp
qed

subsection \<open>The invariant, taken apart\<close>

lemma zonedD:
  assumes "zoned c p1 p2 z3"
  shows "dll (next c) (prev c) (p1 @ p2 @ z3)" and "booked c (p1 @ p2 @ z3)"
    and "marked c p1 p2 z3"
  using assms by (simp_all add: zoned_def)

lemma markedD:
  assumes "marked c p1 p2 z3"
  shows "nomination c = hd (p2 @ z3 @ [dummy])"
    and "inlet c = hd (z3 @ [dummy])"
    and "state c dummy = DETACHED"
    and "\<And>a. a \<in> set z3 \<Longrightarrow> state c a = REUSED"
    and "\<And>a. a \<in> set p2 \<Longrightarrow> state c a \<noteq> NOMINATED"
    and "z3 \<noteq> [] \<Longrightarrow> state c (last p2) = ADDED"
    and "z3 \<noteq> [] \<Longrightarrow> 2 \<le> length (p1 @ p2)"
    and "p2 = [] \<longleftrightarrow> cache_size c \<le> nominated_limit c"
    and "z3 = [] \<longleftrightarrow> cache_size c \<le> nominated_limit c + 1"
  using assms by (simp_all add: marked_def)

lemma marked_empty:
  assumes "marked c p1 p2 z3"
  shows "p2 = [] \<Longrightarrow> z3 = []"
  using markedD(8,9) [OF assms] by simp

lemma booked_frame:
  assumes "booked c ns" and "set ns' = set ns" and "length ns' = length ns"
    and "cache_size c' = cache_size c" and "cache_limit c' = cache_limit c"
    and "nominated_limit c' = nominated_limit c" and "added_limit c' = added_limit c"
    and "map_kv c' = map_kv c" and "in_map c' = in_map c" and "fresh c' = fresh c"
  shows "booked c' ns'"
  using assms by (simp add: booked_def)

lemma zoned_nominated_in_p1:
  assumes "zoned c p1 p2 z3" and "p \<in> set (p1 @ p2 @ z3)" and "state c p = NOMINATED"
  shows "p \<in> set p1" "p \<notin> set p2" "p \<notin> set z3" "p \<noteq> dummy"
proof -
  note m = markedD [OF zonedD(3) [OF assms(1)]]
  show a: "p \<notin> set p2" using m(5) assms(3) by blast
  show b: "p \<notin> set z3" using m(4) assms(3) by fastforce
  show "p \<in> set p1" using a b assms(2) by simp
  show "p \<noteq> dummy" using m(3) assms(3) by (cases "p = dummy") simp_all
qed

lemma use_unfold:
  assumes "state c p = NOMINATED"
  shows "LruCache_use c p =
     use_cascade ((LruCache_insert_before (LruCache_remove c p) dummy p)
        \<lparr>state := (state c)(p := REUSED)\<rparr>)"
  using assms by (simp add: LruCache_use_def Let_def)

lemma use_zoned_plain:
  assumes z: "zoned c (xs @ p # ys) p2 z3" and st: "state c p = NOMINATED"
    and q: "p2 \<noteq> [] \<longrightarrow> state c (hd p2) \<noteq> ADDED"
  shows "zoned (LruCache_use c p)
           (if p2 = [] then xs @ ys @ [p] else xs @ ys)
           (if p2 = [] \<or> z3 \<noteq> [] then p2 else p2 @ [p])
           (if z3 = [] then [] else z3 @ [p])"
proof -
  let ?c3 = "(LruCache_insert_before (LruCache_remove c p) dummy p)\<lparr>state := (state c)(p := REUSED)\<rparr>"
  note m = markedD [OF zonedD(3) [OF z]]
  have d: "dll (next c) (prev c) (xs @ p # (ys @ p2 @ z3))"
    using zonedD(1) [OF z] by simp
  have d3: "dll (next ?c3) (prev ?c3) (xs @ ys @ p2 @ z3 @ [p])"
    using move_to_head_dll [OF d] by simp
  have pin: "p \<in> set ((xs @ p # ys) @ p2 @ z3)" by simp
  note pn = zoned_nominated_in_p1(2-4) [OF z pin st]
  have nom: "state ?c3 (nomination ?c3) \<noteq> ADDED"
  proof (cases p2)
    case Nil
    then have "z3 = []" using m(8,9) by simp
    then show ?thesis using m(1,3) Nil pn by simp
  next
    case (Cons q p2')
    then show ?thesis using m(1) q pn by auto
  qed
  have u: "LruCache_use c p = ?c3"
    using nom by (simp add: use_unfold [OF st] use_cascade_def)
  have two: "z3 \<noteq> [] \<Longrightarrow> 2 \<le> length p2"
  proof -
    assume "z3 \<noteq> []"
    then have ne: "p2 \<noteq> []" and "state c (last p2) = ADDED" using m(6,8,9) by auto
    with q have "hd p2 \<noteq> last p2" by auto
    then show ?thesis using ne by (cases p2) (auto split: if_splits simp: Suc_le_eq)
  qed
  have lp: "p2 \<noteq> [] \<Longrightarrow> last p2 \<noteq> p"
    using pn(1) last_in_set by metis
  have bk: "\<And>ns. set ns = set ((xs @ p # ys) @ p2 @ z3) \<Longrightarrow> length ns = length ((xs @ p # ys) @ p2 @ z3)
      \<Longrightarrow> booked ?c3 ns"
    by (rule booked_frame [OF zonedD(2) [OF z]]) simp_all
  show ?thesis
  proof (cases "p2 = []")
    case True
    then have z3: "z3 = []" using m(8,9) by simp
    have "marked ?c3 (xs @ ys @ [p]) [] []"
      using m(1,2,3,8,9) pn True z3 by (simp add: marked_def)
    moreover have "booked ?c3 ((xs @ ys @ [p]) @ [] @ [])"
      using True z3 by (intro bk) auto
    ultimately show ?thesis unfolding u using d3 True z3
      by (simp add: zoned_def) 
  next
    case False
    show ?thesis
    proof (cases "z3 = []")
      case True
      have "marked ?c3 (xs @ ys) (p2 @ [p]) []"
        using m(1,2,3,5,8,9) pn True False by (simp add: marked_def)
      moreover have "booked ?c3 ((xs @ ys) @ (p2 @ [p]) @ [])"
        using True by (intro bk) auto
      ultimately show ?thesis unfolding u using d3 True False
        by (simp add: zoned_def) 
    next
      case z3: False
      have "marked ?c3 (xs @ ys) p2 (z3 @ [p])"
        using m(1,2,3,4,5,6,8,9) pn z3 False two lp by (simp add: marked_def)
      moreover have "booked ?c3 ((xs @ ys) @ p2 @ (z3 @ [p]))"
        by (intro bk) auto
      ultimately show ?thesis unfolding u using d3 z3 False
        by (simp add: zoned_def) 
    qed
  qed
qed


lemma dll_distinct: "dll nx pv ns \<Longrightarrow> distinct (dummy # ns)"
  by (simp add: dll_def)

lemma use_zoned_cascade1:
  assumes z: "zoned c (xs @ p # ys) (q # p2') []" and st: "state c p = NOMINATED"
    and sq: "state c q = ADDED"
  shows "zoned (LruCache_use c p) (xs @ ys @ [q]) (p2' @ [p]) []"
proof -
  let ?c3 = "(LruCache_insert_before (LruCache_remove c p) dummy p)\<lparr>state := (state c)(p := REUSED)\<rparr>"
  let ?c5 = "?c3\<lparr>state := (state c)(p := REUSED, q := NOMINATED), nomination := hd (p2' @ [p])\<rparr>"
  note m = markedD [OF zonedD(3) [OF z]]
  have d: "dll (next c) (prev c) (xs @ p # (ys @ q # p2'))"
    using zonedD(1) [OF z] by simp
  have d3: "dll (next ?c3) (prev ?c3) ((xs @ ys) @ q # (p2' @ [p]))"
    using move_to_head_dll [OF d] by simp
  have ds: "distinct (dummy # xs @ p # ys @ q # p2')"
    using dll_distinct [OF d] by simp
  have ne: "q \<noteq> p" "q \<noteq> dummy" "p \<noteq> dummy" "p \<notin> set p2'" "q \<notin> set p2'"
    using ds by auto
  have nq: "next ?c3 q = hd (p2' @ [p])"
    using dll_next [OF d3] by (simp add: hd_append)
  have u: "LruCache_use c p = ?c5"
    using m(1,2,3) sq ne nq by (simp add: use_unfold [OF st] use_cascade_def Let_def)
  have d5: "dll (next ?c5) (prev ?c5) ((xs @ ys @ [q]) @ (p2' @ [p]) @ [])"
    using d3 by simp
  have bk: "booked ?c5 ((xs @ ys @ [q]) @ (p2' @ [p]) @ [])"
    by (rule booked_frame [OF zonedD(2) [OF z]]) auto
  have mk: "marked ?c5 (xs @ ys @ [q]) (p2' @ [p]) []"
    using m(2,3,5,8,9) ne by (auto simp: marked_def hd_append)
  show ?thesis unfolding u using d5 bk mk by (simp only: zoned_def simp_thms)
qed

lemma use_zoned_cascade2:
  assumes z: "zoned c (xs @ p # ys) (q # p2') (i # z3')" and st: "state c p = NOMINATED"
    and sq: "state c q = ADDED"
  shows "zoned (LruCache_use c p) (xs @ ys @ [q]) (p2' @ [i]) (z3' @ [p])"
proof -
  let ?c3 = "(LruCache_insert_before (LruCache_remove c p) dummy p)\<lparr>state := (state c)(p := REUSED)\<rparr>"
  let ?c6 = "?c3\<lparr>state := (state c)(p := REUSED, q := NOMINATED, i := ADDED),
                 nomination := hd (p2' @ [i]), inlet := hd (z3' @ [p])\<rparr>"
  note m = markedD [OF zonedD(3) [OF z]]
  have d: "dll (next c) (prev c) (xs @ p # (ys @ q # p2' @ i # z3'))"
    using zonedD(1) [OF z] by simp
  have d3: "dll (next ?c3) (prev ?c3) ((xs @ ys) @ q # (p2' @ i # z3' @ [p]))"
    using move_to_head_dll [OF d] by simp
  have d3': "dll (next ?c3) (prev ?c3) ((xs @ ys @ q # p2') @ i # (z3' @ [p]))"
    using d3 by simp
  have ds: "distinct (dummy # xs @ p # ys @ q # p2' @ i # z3')"
    using dll_distinct [OF d] by simp
  have ne: "q \<noteq> p" "q \<noteq> dummy" "p \<noteq> dummy" "p \<notin> set p2'" "i \<noteq> p" "i \<noteq> q" "i \<noteq> dummy"
    "p \<notin> set z3'" "q \<notin> set z3'" "i \<notin> set z3'" "q \<notin> set p2'" "i \<notin> set p2'"
    using ds by auto
  have nq: "next ?c3 q = hd (p2' @ [i])"
    using dll_next [OF d3] by (simp add: hd_append)
  have ni: "next ?c3 i = hd (z3' @ [p])"
    using dll_next [OF d3'] by (simp add: hd_append)
  have si: "state c i = REUSED" using m(4) by simp
  have u: "LruCache_use c p = ?c6"
    using m(1,2,3) sq si ne nq ni by (simp add: use_unfold [OF st] use_cascade_def Let_def)
  have d6: "dll (next ?c6) (prev ?c6) ((xs @ ys @ [q]) @ (p2' @ [i]) @ (z3' @ [p]))"
    using d3 by simp
  have bk: "booked ?c6 ((xs @ ys @ [q]) @ (p2' @ [i]) @ (z3' @ [p]))"
    by (rule booked_frame [OF zonedD(2) [OF z]]) auto
  have mk: "marked ?c6 (xs @ ys @ [q]) (p2' @ [i]) (z3' @ [p])"
    using m(3,4,5,8,9) ne by (auto simp: marked_def hd_append)
  show ?thesis unfolding u using d6 bk mk by (simp only: zoned_def simp_thms)
qed

subsection \<open>Insertion keeps the invariant\<close>

lemma insert_next_other:
  "a \<noteq> n \<Longrightarrow> a \<noteq> prev c at \<Longrightarrow> next (LruCache_insert_before c at n) a = next c a"
  by (simp add: LruCache_insert_before_eq)

lemma booked_add:
  assumes "booked c ns" and "map_kv c key = None"
    and "set ns' = insert (fresh c) (set ns)" and "length ns' = length ns + 1"
    and "cache_size c' = cache_size c + 1" and "cache_size c < cache_limit c"
    and "map_kv c' = (map_kv c)(key \<mapsto> fresh c)"
    and "in_map c' = (in_map c)(fresh c := key)" and "fresh c' = fresh c + 1"
    and "cache_limit c' = cache_limit c"
    and "nominated_limit c' = nominated_limit c" and "added_limit c' = added_limit c"
  shows "booked c' ns'"
proof -
  have f: "fresh c \<notin> set ns" using assms(1) by (auto simp: booked_def)
  have mp: "\<And>k a. map_kv c k = Some a \<longleftrightarrow> a \<in> set ns \<and> in_map c a = k"
    using assms(1) by (simp add: booked_def)
  have k: "\<And>a. a \<in> set ns \<Longrightarrow> in_map c a \<noteq> key"
    using mp assms(2) by (metis option.distinct(1))
  have "\<And>k a. map_kv c' k = Some a \<longleftrightarrow> a \<in> set ns' \<and> in_map c' a = k"
    unfolding assms(3,7,8) using f k mp by (auto simp: fun_upd_def)
  moreover have "\<forall>a\<in>set ns'. a < fresh c'"
    unfolding assms(3,9) using assms(1) by (auto simp: booked_def)
  ultimately show ?thesis
    using assms(1,4,5,6,9,10,11,12) by (simp add: booked_def)
qed

lemma booked_evict:
  assumes "booked c ns" and "map_kv c key = None" and "f \<in> set ns"
    and "set ns' = insert (fresh c) (set ns - {f})" and "length ns' = length ns"
    and "cache_size c' = cache_size c"
    and "map_kv c' = (map_kv c)(key \<mapsto> fresh c, in_map c f := None)"
    and "in_map c' = (in_map c)(fresh c := key)" and "fresh c' = fresh c + 1"
    and "cache_limit c' = cache_limit c"
    and "nominated_limit c' = nominated_limit c" and "added_limit c' = added_limit c"
  shows "booked c' ns'"
proof -
  have fr: "fresh c \<notin> set ns" using assms(1) by (auto simp: booked_def)
  have mp: "\<And>k a. map_kv c k = Some a \<longleftrightarrow> a \<in> set ns \<and> in_map c a = k"
    using assms(1) by (simp add: booked_def)
  have k: "\<And>a. a \<in> set ns \<Longrightarrow> in_map c a \<noteq> key"
    using mp assms(2) by (metis option.distinct(1))
  have inj: "\<And>a. a \<in> set ns \<Longrightarrow> in_map c a = in_map c f \<Longrightarrow> a = f"
    using mp assms(3) by (metis option.inject)
  have "\<And>k a. map_kv c' k = Some a \<longleftrightarrow> a \<in> set ns' \<and> in_map c' a = k"
    unfolding assms(4,7,8) using fr k mp inj assms(3) by (auto simp: fun_upd_def)
  moreover have "\<forall>a\<in>set ns'. a < fresh c'"
    unfolding assms(4,9) using assms(1) by (auto simp: booked_def)
  ultimately show ?thesis
    using assms(1,5,6,9,10,11,12) by (simp add: booked_def)
qed

lemma map_insert_fields [simp]:
  "next (map_insert c key v) = next c"
  "prev (map_insert c key v) = prev c"
  "state (map_insert c key v) = (state c)(fresh c := DETACHED)"
  "in_map (map_insert c key v) = (in_map c)(fresh c := key)"
  "value (map_insert c key v) = (value c)(fresh c := v)"
  "inlet (map_insert c key v) = inlet c"
  "nomination (map_insert c key v) = nomination c"
  "cache_limit (map_insert c key v) = cache_limit c"
  "nominated_limit (map_insert c key v) = nominated_limit c"
  "added_limit (map_insert c key v) = added_limit c"
  "cache_size (map_insert c key v) = cache_size c"
  "map_kv (map_insert c key v) = (map_kv c)(key \<mapsto> fresh c)"
  "on_create (map_insert c key v) = on_create c"
  "on_evict (map_insert c key v) = on_evict c"
  "of_key (map_insert c key v) = of_key c"
  "calls (map_insert c key v) = calls c"
  "fresh (map_insert c key v) = fresh c + 1"
  by (simp_all add: map_insert_def)

lemma zoned_fresh:
  assumes "zoned c p1 p2 z3"
  shows "fresh c \<notin> set p1" "fresh c \<notin> set p2" "fresh c \<notin> set z3" "fresh c \<noteq> dummy"
  using zonedD(2) [OF assms] by (auto simp: booked_def)

text \<open>The first branch of the warm-up (line 126).\<close>

lemma add_zoned_nominated:
  assumes z: "zoned c p1 p2 z3" and k: "map_kv c key = None"
    and sz: "cache_size c < nominated_limit c"
  shows "zoned (LruCache_add (map_insert c key v) (fresh c)) (p1 @ [fresh c]) [] []"
proof -
  let ?r = "fresh c"
  let ?b = "(map_insert c key v)\<lparr>state := (state c)(?r := NOMINATED), cache_size := cache_size c + 1\<rparr>"
  let ?c' = "LruCache_insert_before ?b dummy ?r"
  note m = markedD [OF zonedD(3) [OF z]]
  note b = zonedD(2) [OF z]
  note fr = zoned_fresh [OF z]
  have e: "p2 = []" "z3 = []" using m(8,9) sz by auto
  have lim: "cache_size c < cache_limit c" using b sz by (simp add: booked_def)
  have u: "LruCache_add (map_insert c key v) ?r = ?c'"
    using sz lim m(2) e by (simp add: LruCache_add_def Let_def)
  have d: "dll (next ?b) (prev ?b) (p1 @ [])" using zonedD(1) [OF z] e by simp
  have d': "dll (next ?c') (prev ?c') ((p1 @ [?r]) @ [] @ [])"
    using insert_dll [OF d, of ?r dummy] fr e by simp
  have bk: "booked ?c' ((p1 @ [?r]) @ [] @ [])"
    using e lim by (intro booked_add [OF b k]) simp_all
  have mk: "marked ?c' (p1 @ [?r]) [] []"
    using m(1,2,3) e sz fr by (simp add: marked_def)
  show ?thesis unfolding u using d' bk mk by (simp only: zoned_def simp_thms)
qed

text \<open>The second branch of the warm-up (line 128).\<close>

lemma add_zoned_first_added:
  assumes z: "zoned c p1 p2 z3" and k: "map_kv c key = None"
    and sz: "cache_size c = nominated_limit c"
  shows "zoned (LruCache_add (map_insert c key v) (fresh c)) p1 [fresh c] []"
proof -
  let ?r = "fresh c"
  let ?b = "(map_insert c key v)\<lparr>state := (state c)(?r := ADDED), nomination := ?r,
              cache_size := cache_size c + 1\<rparr>"
  let ?c' = "LruCache_insert_before ?b dummy ?r"
  note m = markedD [OF zonedD(3) [OF z]]
  note b = zonedD(2) [OF z]
  note fr = zoned_fresh [OF z]
  have e: "p2 = []" "z3 = []" using m(8,9) sz by auto
  have lim: "cache_size c < cache_limit c" using b sz by (simp add: booked_def)
  have u: "LruCache_add (map_insert c key v) ?r = ?c'"
    using sz lim m(2) e by (simp add: LruCache_add_def Let_def)
  have d: "dll (next ?b) (prev ?b) (p1 @ [])" using zonedD(1) [OF z] e by simp
  have d': "dll (next ?c') (prev ?c') (p1 @ [?r] @ [])"
    using insert_dll [OF d, of ?r dummy] fr e by simp
  have bk: "booked ?c' (p1 @ [?r] @ [])"
    using e lim by (intro booked_add [OF b k]) simp_all
  have mk: "marked ?c' p1 [?r] []"
    using m(1,2,3) e sz fr by (simp add: marked_def)
  show ?thesis unfolding u using d' bk mk by (simp only: zoned_def simp_thms)
qed

lemma zoned_calls [simp]: "zoned (c\<lparr>calls := x\<rparr>) p1 p2 z3 = zoned c p1 p2 z3"
  by (simp add: zoned_def booked_def marked_def)

lemma hd_butlast_snoc:
  assumes "distinct p2" and "p2 \<noteq> []"
  shows "hd (butlast p2 @ r # xs) = (if hd p2 = last p2 then r else hd p2)"
proof (cases p2)
  case Nil
  then show ?thesis using assms by simp
next
  case (Cons a l)
  then show ?thesis using assms by (cases l) auto
qed

text \<open>The third branch of the warm-up (lines 130-133).\<close>

lemma add_zoned_grow:
  assumes z: "zoned c p1 p2 z3" and k: "map_kv c key = None"
    and sz: "nominated_limit c < cache_size c" and lim: "cache_size c < cache_limit c"
  shows "zoned (LruCache_add (map_insert c key v) (fresh c)) p1 (butlast p2 @ [fresh c])
           (last p2 # z3)"
proof -
  let ?r = "fresh c"
  let ?l = "last p2"
  let ?b = "(map_insert c key v)\<lparr>state := (state c)(?r := ADDED, ?l := REUSED), inlet := ?l,
              nomination := (if hd p2 = ?l then ?r else hd p2),
              cache_size := cache_size c + 1\<rparr>"
  let ?c' = "LruCache_insert_before ?b ?l ?r"
  note m = markedD [OF zonedD(3) [OF z]]
  note b = zonedD(2) [OF z]
  note fr = zoned_fresh [OF z]
  have ne: "p2 \<noteq> []" using m(8) sz by auto
  have d0: "dll (next c) (prev c) ((p1 @ p2) @ z3)" using zonedD(1) [OF z] by simp
  have ds: "distinct (dummy # p1 @ p2 @ z3)" using dll_distinct [OF d0] by simp
  have pl: "prev c (inlet c) = ?l"
    using dll_cut_prev [OF d0] m(2) ne by simp
  have nm: "nomination c = hd p2" using m(1) ne by simp
  have lr: "?l \<noteq> ?r" "?l \<noteq> dummy" "?l \<notin> set z3" "?l \<notin> set (butlast p2)"
  proof -
    have "?l \<in> set p2" using ne by simp
    then show "?l \<noteq> ?r" "?l \<noteq> dummy" "?l \<notin> set z3" using fr ds by auto
    have "distinct (butlast p2 @ [?l])" using ne ds by simp
    then show "?l \<notin> set (butlast p2)" by simp
  qed
  have u: "LruCache_add (map_insert c key v) ?r = ?c'"
    using sz lim pl nm lr
    by (intro LruCache.equality)
      (simp_all add: LruCache_add_def Let_def LruCache_insert_before_eq)
  have "butlast p2 @ [?l] = p2" using ne by simp
  then have "(butlast p2 @ [?l]) @ z3 = p2 @ z3" by (simp only:)
  then have sp: "(p1 @ butlast p2) @ (?l # z3) = (p1 @ p2) @ z3" by simp
  have d: "dll (next ?b) (prev ?b) ((p1 @ butlast p2) @ (?l # z3))"
    unfolding sp using d0 by simp
  have "dll (next ?c') (prev ?c') ((p1 @ butlast p2) @ ?r # (?l # z3))"
    using fr lr by (intro insert_dll [OF d]) (auto dest: in_set_butlastD)
  then have d': "dll (next ?c') (prev ?c') (p1 @ (butlast p2 @ [?r]) @ (?l # z3))"
    by simp
  have "set (p1 @ (butlast p2 @ [?r]) @ (?l # z3)) = insert ?r (set (p1 @ (butlast p2 @ [?l]) @ z3))"
    by auto
  then have st: "set (p1 @ (butlast p2 @ [?r]) @ (?l # z3)) = insert ?r (set (p1 @ p2 @ z3))"
    using ne by simp
  have bk: "booked ?c' (p1 @ (butlast p2 @ [?r]) @ (?l # z3))"
    using lim ne by (intro booked_add [OF b k st]) simp_all
  have len: "2 \<le> length (p1 @ p2)"
  proof (cases "z3 = []")
    case True
    then have "int (length (p1 @ p2)) = cache_size c" using b by (simp add: booked_def)
    then show ?thesis using sz b by (simp add: booked_def)
  next
    case False
    then show ?thesis using m(7) by simp
  qed
  have mk: "marked ?c' p1 (butlast p2 @ [?r]) (?l # z3)"
    using m(3,4,5) sz fr lr ne len hd_butlast_snoc [of p2 ?r] ds
    by (auto simp: marked_def dest: in_set_butlastD)
  show ?thesis unfolding u using d' bk mk by (simp only: zoned_def simp_thms)
qed

lemma booked_map:
  "booked c ns \<Longrightarrow> map_kv c k = Some a \<longleftrightarrow> a \<in> set ns \<and> in_map c a = k"
  by (simp add: booked_def)

lemma booked_key_fresh:
  assumes "booked c ns" and "map_kv c key = None" and "a \<in> set ns"
  shows "in_map c a \<noteq> key"
  using booked_map [OF assms(1), of "in_map c a" a] assms(2,3) by auto

text \<open>The eviction branch (lines 114-123) when a node precedes the one at \<open>nomination\<close>.\<close>

lemma add_zoned_evict:
  assumes z: "zoned c (f # p1') (q # p2') (i # z3')" and k: "map_kv c key = None"
    and full: "cache_limit c \<le> cache_size c"
  shows "zoned (LruCache_add (map_insert c key v) (fresh c)) (p1' @ [q]) (p2' @ [fresh c])
           (i # z3')"
proof -
  let ?r = "fresh c"
  let ?c2 = "(LruCache_remove ((map_insert c key v)\<lparr>state := (state c)(?r := ADDED)\<rparr>) f)
               \<lparr>map_kv := (map_kv c)(key \<mapsto> ?r, in_map c f := None)\<rparr>"
  let ?c3 = "LruCache_insert_before ?c2 i ?r"
  let ?c4 = "?c3\<lparr>state := (state c)(?r := ADDED, q := NOMINATED), nomination := hd (p2' @ [?r])\<rparr>"
  let ?c' = "if on_evict c then ?c4\<lparr>calls := calls c @ [Evict (in_map c f) (value c f)]\<rparr> else ?c4"
  note m = markedD [OF zonedD(3) [OF z]]
  note b = zonedD(2) [OF z]
  note fr = zoned_fresh [OF z]
  have d0: "dll (next c) (prev c) ([] @ f # (p1' @ q # p2' @ i # z3'))"
    using zonedD(1) [OF z] by simp
  have ds: "distinct (dummy # f # p1' @ q # p2' @ i # z3')"
    using dll_distinct [OF d0] by simp
  have nf: "next c dummy = f" using dll_next_dummy [OF d0] by simp
  let ?c0 = "(map_insert c key v)\<lparr>state := (state c)(?r := ADDED)\<rparr>"
  have "dll (next ?c0) (prev ?c0) ([] @ f # (p1' @ q # p2' @ i # z3'))"
    using d0 by simp
  from remove_dll [OF this]
  have d2: "dll (next ?c2) (prev ?c2) ((p1' @ q # p2') @ (i # z3'))"
    by simp
  have "dll (next ?c3) (prev ?c3) ((p1' @ q # p2') @ ?r # (i # z3'))"
    using fr ds by (intro insert_dll [OF d2]) auto
  then have d3: "dll (next ?c3) (prev ?c3) (p1' @ q # (p2' @ ?r # i # z3'))"
    by simp
  have nq: "next ?c3 q = hd (p2' @ [?r])"
    using dll_next [OF d3] by (simp add: hd_append)
  have kf: "in_map c f \<noteq> key"
    by (rule booked_key_fresh [OF b k]) simp
  have fne: "f \<noteq> ?r" "q \<noteq> ?r" using fr by auto
  have u: "LruCache_add (map_insert c key v) ?r = ?c'"
    using full nf nq m(1,2) kf fne
    by (intro LruCache.equality)
      (simp_all add: LruCache_add_def add_cascade_def Let_def fun_upd_twist)
  have d4: "dll (next ?c4) (prev ?c4) ((p1' @ [q]) @ (p2' @ [?r]) @ (i # z3'))"
    using d3 by simp
  have sz: "cache_size c = cache_limit c" using b full by (simp add: booked_def)
  have bk: "booked ?c4 ((p1' @ [q]) @ (p2' @ [?r]) @ (i # z3'))"
    by (rule booked_evict [OF b k, of f]) (use ds in \<open>auto simp: fun_upd_twist kf\<close>)
  have mk: "marked ?c4 (p1' @ [q]) (p2' @ [?r]) (i # z3')"
    using m(2,3,4,5,8,9) fr ds by (auto simp: marked_def hd_append)
  have "zoned ?c4 (p1' @ [q]) (p2' @ [?r]) (i # z3')"
    using d4 bk mk by (simp only: zoned_def simp_thms)
  then show ?thesis unfolding u by simp
qed


text \<open>
  The eviction branch when the removed node is the one at \<open>nomination\<close>: lines 120-121
  then write the state of the erased node and read its stale \<open>next\<close>.
\<close>

lemma add_zoned_evict_marker:
  assumes z: "zoned c [] (f # q # p2') (i # z3')" and k: "map_kv c key = None"
    and full: "cache_limit c \<le> cache_size c"
  shows "zoned (LruCache_add (map_insert c key v) (fresh c)) [] (q # p2' @ [fresh c]) (i # z3')"
proof -
  let ?r = "fresh c"
  let ?c0 = "(map_insert c key v)\<lparr>state := (state c)(?r := ADDED)\<rparr>"
  let ?c2 = "(LruCache_remove ?c0 f)\<lparr>map_kv := (map_kv c)(key \<mapsto> ?r, in_map c f := None)\<rparr>"
  let ?c3 = "LruCache_insert_before ?c2 i ?r"
  let ?c4 = "?c3\<lparr>state := (state c)(?r := ADDED, f := NOMINATED), nomination := q\<rparr>"
  let ?c' = "if on_evict c then ?c4\<lparr>calls := calls c @ [Evict (in_map c f) (value c f)]\<rparr> else ?c4"
  note m = markedD [OF zonedD(3) [OF z]]
  note b = zonedD(2) [OF z]
  note fr = zoned_fresh [OF z]
  have d0: "dll (next c) (prev c) ([] @ f # (q # p2' @ i # z3'))"
    using zonedD(1) [OF z] by simp
  have ds: "distinct (dummy # f # q # p2' @ i # z3')"
    using dll_distinct [OF d0] by simp
  have nf: "next c dummy = f" using dll_next_dummy [OF d0] by simp
  have d0': "dll (next ?c0) (prev ?c0) ([] @ f # (q # p2' @ i # z3'))"
    using d0 by simp
  from remove_dll [OF d0']
  have d2: "dll (next ?c2) (prev ?c2) ((q # p2') @ (i # z3'))"
    by simp
  have "dll (next ?c3) (prev ?c3) ((q # p2') @ ?r # (i # z3'))"
    using fr ds by (intro insert_dll [OF d2]) auto
  then have d3: "dll (next ?c3) (prev ?c3) ([] @ (q # p2' @ [?r]) @ (i # z3'))"
    by simp
  have "prev ?c2 i = last (q # p2')"
    using dll_cut_prev [OF d2] by simp
  moreover have "last (q # p2') \<in> set (q # p2')"
    by (rule last_in_set) simp
  moreover have "f \<notin> set (q # p2')" using ds by simp
  ultimately have pf: "f \<noteq> prev ?c2 i"
    by metis
  have "next ?c2 f = next ?c0 f"
    using remove_stale [OF d0'] by simp
  also have "\<dots> = q" using dll_next [OF d0'] by simp
  finally have n2: "next ?c2 f = q" .
  have fne: "f \<noteq> ?r" "q \<noteq> ?r" using fr by auto
  have nq: "next ?c3 f = q"
    using insert_next_other [OF fne(1) pf] n2 by simp
  have kf: "in_map c f \<noteq> key"
    by (rule booked_key_fresh [OF b k]) simp
  have u: "LruCache_add (map_insert c key v) ?r = ?c'"
    using full nf nq m(1,2) kf fne
    by (intro LruCache.equality)
      (simp_all add: LruCache_add_def add_cascade_def Let_def fun_upd_twist)
  have d4: "dll (next ?c4) (prev ?c4) ([] @ (q # p2' @ [?r]) @ (i # z3'))"
    using d3 by simp
  have bk: "booked ?c4 ([] @ (q # p2' @ [?r]) @ (i # z3'))"
    by (rule booked_evict [OF b k, of f]) (use ds in \<open>auto simp: fun_upd_twist kf\<close>)
  have mk: "marked ?c4 [] (q # p2' @ [?r]) (i # z3')"
    using m(2,3,4,5,8,9) fr ds by (auto simp: marked_def hd_append)
  have "zoned ?c4 [] (q # p2' @ [?r]) (i # z3')"
    using d4 bk mk by (simp only: zoned_def simp_thms)
  then show ?thesis unfolding u by simp
qed

subsection \<open>Every reachable state is well formed\<close>

lemma well_formed_new:
  assumes "LruCache_new conv k0 v0 sz create evict nominated_size added_size = Some c"
  shows "zoned c [] [] []"
proof -
  let ?nl = "if nominated_size \<noteq> 0 then nominated_size else sz sdiv 2"
  let ?al = "if added_size \<noteq> 0 then added_size else ?nl + sz sdiv 4"
  have ok: "0 < ?nl \<and> ?nl < ?al \<and> ?al < sz"
    using assms by (simp add: LruCache_new_def Let_def split: if_splits)
  have c: "c = \<lparr> next = (\<lambda>a. a), prev = (\<lambda>a. a), state = (\<lambda>a. DETACHED),
                     in_map = (\<lambda>a. k0), value = (\<lambda>a. v0),
                     inlet = dummy, nomination = dummy,
                     cache_limit = sz, nominated_limit = ?nl, added_limit = ?al,
                     cache_size = 0, map_kv = Map.empty,
                     on_create = create, on_evict = evict, of_key = conv,
                     calls = [], fresh = 1 \<rparr>"
    using assms ok by (simp add: LruCache_new_def Let_def split: if_splits)
  have "dll (next c) (prev c) []" unfolding c by (simp add: dll_def)
  moreover have "booked c []" unfolding c using ok by (simp add: booked_def)
  moreover have "marked c [] [] []" unfolding c using ok by (simp add: marked_def)
  ultimately show ?thesis by (simp add: zoned_def)
qed

lemma zoned_use:
  assumes z: "zoned c p1 p2 z3" and p: "p \<in> set (p1 @ p2 @ z3)"
  shows "well_formed (LruCache_use c p)"
proof (cases "state c p = NOMINATED")
  case False
  then show ?thesis using z by (auto simp: LruCache_use_def well_formed_def)
next
  case True
  from zoned_nominated_in_p1(1) [OF z p True] obtain xs ys where p1: "p1 = xs @ p # ys"
    by (auto simp: in_set_conv_decomp)
  note z' = z [unfolded p1]
  show ?thesis
  proof (cases "p2 \<noteq> [] \<and> state c (hd p2) = ADDED")
    case False
    then have "p2 \<noteq> [] \<longrightarrow> state c (hd p2) \<noteq> ADDED" by blast
    from use_zoned_plain [OF z' True this] show ?thesis unfolding well_formed_def by blast
  next
    case a: True
    then obtain q p2' where p2: "p2 = q # p2'" and sq: "state c q = ADDED"
      by (cases p2) auto
    show ?thesis
    proof (cases z3)
      case Nil
      from use_zoned_cascade1 [OF z' [unfolded p2 Nil] True sq] show ?thesis
        unfolding well_formed_def by blast
    next
      case (Cons i z3')
      from use_zoned_cascade2 [OF z' [unfolded p2 Cons] True sq] show ?thesis
        unfolding well_formed_def by blast
    qed
  qed
qed

lemma zoned_add:
  assumes z: "zoned c p1 p2 z3" and k: "map_kv c key = None"
  shows "well_formed (LruCache_add (map_insert c key v) (fresh c))"
proof -
  note m = markedD [OF zonedD(3) [OF z]]
  note b = zonedD(2) [OF z]
  consider (nominated) "cache_size c < nominated_limit c"
    | (first_added) "cache_size c = nominated_limit c"
    | (grow) "nominated_limit c < cache_size c" "cache_size c < cache_limit c"
    | (evict) "cache_limit c \<le> cache_size c"
    by linarith
  then show ?thesis
  proof cases
    case nominated
    from add_zoned_nominated [OF z k this] show ?thesis unfolding well_formed_def by blast
  next
    case first_added
    from add_zoned_first_added [OF z k this] show ?thesis unfolding well_formed_def by blast
  next
    case grow
    from add_zoned_grow [OF z k this] show ?thesis unfolding well_formed_def by blast
  next
    case evict
    have "nominated_limit c + 1 < cache_size c"
      using b evict by (simp add: booked_def)
    then have ne: "z3 \<noteq> []" "p2 \<noteq> []" using m(8,9) by auto
    then obtain i z3' where z3: "z3 = i # z3'" by (cases z3) auto
    have len: "2 \<le> length (p1 @ p2)" using m(7) ne by simp
    show ?thesis
    proof (cases p1)
      case Nil
      then obtain f q p2' where p2: "p2 = f # q # p2'"
        using len by (cases p2; cases "tl p2") auto
      from add_zoned_evict_marker [OF z [unfolded Nil p2 z3] k evict] show ?thesis
        unfolding well_formed_def by blast
    next
      case (Cons f p1')
      obtain q p2' where p2: "p2 = q # p2'" using ne by (cases p2) auto
      from add_zoned_evict [OF z [unfolded Cons p2 z3] k evict] show ?thesis
        unfolding well_formed_def by blast
    qed
  qed
qed

lemma well_formed_calls [simp]: "well_formed (c\<lparr>calls := x\<rparr>) = well_formed c"
  by (simp add: well_formed_def)

lemma well_formed_fetch:
  assumes "well_formed c"
  shows "well_formed (snd (fetch c key))"
proof -
  from assms obtain p1 p2 z3 where z: "zoned c p1 p2 z3" by (auto simp: well_formed_def)
  show ?thesis
  proof (cases "map_kv c key")
    case None
    let ?v = "case on_create c of Some f \<Rightarrow> f key | None \<Rightarrow> of_key c key"
    show ?thesis
    proof (cases "on_create c")
      case n: None
      then show ?thesis using zoned_add [OF z None, of ?v] None
        by (simp add: fetch_def Let_def)
    next
      case (Some f)
      have z': "zoned (c\<lparr>calls := calls c @ [Create key]\<rparr>) p1 p2 z3" using z by simp
      have "map_kv (c\<lparr>calls := calls c @ [Create key]\<rparr>) key = None" using None by simp
      from zoned_add [OF z' this, of "f key"] show ?thesis using None Some
        by (simp add: fetch_def Let_def)
    qed
  next
    case (Some i)
    then have "i \<in> set (p1 @ p2 @ z3)"
      using booked_map [OF zonedD(2) [OF z]] by blast
    from zoned_use [OF z this] show ?thesis using Some
      by (simp add: fetch_def Let_def)
  qed
qed

lemma well_formed_fetch_all: "well_formed c \<Longrightarrow> well_formed (fetch_all c ks)"
  by (induction ks arbitrary: c) (simp_all add: well_formed_fetch)

lemma well_formed_reachable:
  assumes "LruCache_new conv k0 v0 sz create evict nominated_size added_size = Some c0"
  shows "well_formed (fetch_all c0 ks)"
  using well_formed_new [OF assms] by (intro well_formed_fetch_all) (auto simp: well_formed_def)

lemma reach_zoned:
  assumes "LruCache_new conv k0 v0 sz create evict nominated_size added_size = Some c0"
    and "c = fetch_all c0 ks"
  obtains p1 p2 z3 where "zoned c p1 p2 z3"
  using well_formed_reachable [OF assms(1), of ks] assms(2) by (auto simp: well_formed_def)


subsection \<open>What a call leaves alone\<close>

lemma use_frame:
  "value (LruCache_use c n) = value c" "in_map (LruCache_use c n) = in_map c"
  "map_kv (LruCache_use c n) = map_kv c" "calls (LruCache_use c n) = calls c"
  "cache_size (LruCache_use c n) = cache_size c" "fresh (LruCache_use c n) = fresh c"
  "on_create (LruCache_use c n) = on_create c" "on_evict (LruCache_use c n) = on_evict c"
  "of_key (LruCache_use c n) = of_key c" "cache_limit (LruCache_use c n) = cache_limit c"
  by (simp_all add: LruCache_use_def use_cascade_def Let_def)

lemma add_frame:
  "value (LruCache_add c n) = value c" "in_map (LruCache_add c n) = in_map c"
  "fresh (LruCache_add c n) = fresh c"
  "on_create (LruCache_add c n) = on_create c" "on_evict (LruCache_add c n) = on_evict c"
  "of_key (LruCache_add c n) = of_key c" "cache_limit (LruCache_add c n) = cache_limit c"
  by (simp_all add: LruCache_add_def add_cascade_def Let_def)

lemma add_warmup:
  assumes "state c n = DETACHED" and "cache_size c < cache_limit c"
  shows "map_kv (LruCache_add c n) = map_kv c" "calls (LruCache_add c n) = calls c"
    "cache_size (LruCache_add c n) = cache_size c + 1"
  using assms by (simp_all add: LruCache_add_def Let_def)

lemma add_evict:
  assumes "state c n = DETACHED" and "cache_limit c \<le> cache_size c"
  shows "map_kv (LruCache_add c n) = (map_kv c)(in_map c (next c dummy) := None)"
    "calls (LruCache_add c n) =
       calls c @ (if on_evict c then [Evict (in_map c (next c dummy)) (value c (next c dummy))]
                  else [])"
    "cache_size (LruCache_add c n) = cache_size c"
  using assms by (simp_all add: LruCache_add_def add_cascade_def Let_def)

lemma fetch_hit:
  assumes "map_kv c key = Some i"
  shows "fetch c key = (value c i, LruCache_use c i)"
  using assms by (simp add: fetch_def Let_def use_frame)

lemma fetch_miss:
  assumes "map_kv c key = None"
  shows "fst (fetch c key) = (case on_create c of Some f \<Rightarrow> f key | None \<Rightarrow> of_key c key)"
    and "fst (fetch c key) = value (snd (fetch c key)) (fresh c)"
    and "value (snd (fetch c key)) = (value c)(fresh c := fst (fetch c key))"
    and "in_map (snd (fetch c key)) = (in_map c)(fresh c := key)"
    and "fresh (snd (fetch c key)) = fresh c + 1"
  using assms by (simp_all add: fetch_def Let_def add_frame split: option.splits)

lemma fetch_miss_warmup:
  assumes "map_kv c key = None" and "cache_size c < cache_limit c"
  shows "map_kv (snd (fetch c key)) = (map_kv c)(key \<mapsto> fresh c)"
    and "calls (snd (fetch c key)) =
          calls c @ (case on_create c of None \<Rightarrow> [] | Some f \<Rightarrow> [Create key])"
    and "cache_size (snd (fetch c key)) = cache_size c + 1"
  using assms by (simp_all add: fetch_def Let_def add_warmup split: option.splits)

lemma fetch_miss_evict:
  assumes "map_kv c key = None" and "cache_limit c \<le> cache_size c"
    and "next c dummy \<noteq> fresh c"
  shows "map_kv (snd (fetch c key)) = (map_kv c)(key \<mapsto> fresh c, in_map c (next c dummy) := None)"
    and "calls (snd (fetch c key)) =
          calls c @ (case on_create c of None \<Rightarrow> [] | Some f \<Rightarrow> [Create key])
            @ (if on_evict c then [Evict (in_map c (next c dummy)) (value c (next c dummy))]
               else [])"
    and "cache_size (snd (fetch c key)) = cache_size c"
  using assms by (simp_all add: fetch_def Let_def add_evict split: option.splits)

lemma fetch_config:
  "on_create (snd (fetch c key)) = on_create c" "on_evict (snd (fetch c key)) = on_evict c"
  "of_key (snd (fetch c key)) = of_key c" "cache_limit (snd (fetch c key)) = cache_limit c"
  by (simp_all add: fetch_def Let_def add_frame use_frame split: option.splits)

lemma fetch_all_config:
  "on_create (fetch_all c ks) = on_create c \<and> on_evict (fetch_all c ks) = on_evict c
   \<and> of_key (fetch_all c ks) = of_key c \<and> cache_limit (fetch_all c ks) = cache_limit c"
  by (induction ks arbitrary: c) (simp_all add: fetch_config)

lemma new_config:
  assumes "LruCache_new conv k0 v0 sz create evict nominated_size added_size = Some c"
  shows "on_create c = create" "on_evict c = evict" "of_key c = conv" "cache_limit c = sz"
  using assms by (auto simp: LruCache_new_def Let_def split: if_splits)

subsection \<open>The node a full cache evicts\<close>

lemma zoned_tail:
  assumes z: "zoned c p1 p2 z3" and full: "cache_limit c \<le> cache_size c"
  shows "next c dummy \<in> set (p1 @ p2 @ z3)" and "next c dummy \<noteq> fresh c"
    and "map_kv c (in_map c (next c dummy)) = Some (next c dummy)"
proof -
  note b = zonedD(2) [OF z]
  have "0 < cache_size c" using b full by (simp add: booked_def)
  then have ne: "p1 @ p2 @ z3 \<noteq> []" using b by (auto simp: booked_def)
  have "next c dummy = hd ((p1 @ p2 @ z3) @ [dummy])"
    by (rule dll_next_dummy [OF zonedD(1) [OF z]])
  then have "next c dummy = hd (p1 @ p2 @ z3)" using ne by (simp add: hd_append)
  then show t: "next c dummy \<in> set (p1 @ p2 @ z3)" using ne hd_in_set by metis
  then show "next c dummy \<noteq> fresh c" using b by (auto simp: booked_def)
  show "map_kv c (in_map c (next c dummy)) = Some (next c dummy)"
    using booked_map [OF b] t by blast
qed

lemma zoned_card:
  assumes z: "zoned c p1 p2 z3"
  shows "finite (dom (map_kv c))" and "int (card (dom (map_kv c))) = cache_size c"
proof -
  note b = zonedD(2) [OF z]
  let ?ns = "p1 @ p2 @ z3"
  have d: "dom (map_kv c) = in_map c ` set ?ns"
    using booked_map [OF b] by (auto simp: dom_def image_iff)
  show "finite (dom (map_kv c))" unfolding d by simp
  have "inj_on (in_map c) (set ?ns)"
  proof (rule inj_onI)
    fix x y assume "x \<in> set ?ns" "y \<in> set ?ns" "in_map c x = in_map c y"
    then have "map_kv c (in_map c x) = Some x" "map_kv c (in_map c x) = Some y"
      using booked_map [OF b] by auto
    then show "x = y" by simp
  qed
  then have "card (dom (map_kv c)) = card (set ?ns)" unfolding d by (rule card_image)
  also have "\<dots> = length ?ns"
  proof -
    have "distinct ?ns" using dll_distinct [OF zonedD(1) [OF z]] by simp
    then show ?thesis by (rule distinct_card)
  qed
  finally show "int (card (dom (map_kv c))) = cache_size c"
    using b by (simp add: booked_def)
qed

subsection \<open>State tags after a promotion\<close>

lemma filter_upt_none:
  "(\<And>m. m < k \<Longrightarrow> \<not> P m) \<Longrightarrow> filter P [0..<k] = []"
  by (simp add: filter_empty_conv)

lemma filter_eq_upt: "a < k \<Longrightarrow> filter (\<lambda>m. m = a) [0..<k] = [a]"
  by (induction k) (auto simp: filter_empty_conv less_Suc_eq)

lemma filter_upt_single:
  assumes "a < k" and "\<And>m. m < k \<Longrightarrow> P m \<longleftrightarrow> m = a"
  shows "filter P [0..<k] = [a]"
proof -
  have "filter P [0..<k] = filter (\<lambda>m. m = a) [0..<k]"
    using assms(2) by (intro filter_cong) auto
  then show ?thesis using filter_eq_upt [OF assms(1)] by simp
qed

lemma use_links:
  assumes "state c p = NOMINATED"
  shows "next (LruCache_use c p) = next (LruCache_insert_before (LruCache_remove c p) dummy p)"
    and "prev (LruCache_use c p) = prev (LruCache_insert_before (LruCache_remove c p) dummy p)"
  using assms by (simp_all add: LruCache_use_def use_cascade_def Let_def)

lemma use_state:
  assumes "state c p = NOMINATED" and "nomination c \<noteq> p" and "inlet c \<noteq> p"
  shows "state (LruCache_use c p) =
     (if state c (nomination c) = ADDED then
        (if inlet c \<noteq> nomination c \<and> state c (inlet c) = REUSED
         then (state c)(p := REUSED, nomination c := NOMINATED, inlet c := ADDED)
         else (state c)(p := REUSED, nomination c := NOMINATED))
      else (state c)(p := REUSED))"
  using assms by (auto simp add: LruCache_use_def use_cascade_def Let_def)

lemma zoned_markers:
  assumes "zoned c p1 p2 z3"
  shows "nomination c \<in> set (p2 @ z3 @ [dummy])" and "inlet c \<in> set (z3 @ [dummy])"
proof -
  note m = markedD [OF zonedD(3) [OF assms]]
  show "nomination c \<in> set (p2 @ z3 @ [dummy])"
    unfolding m(1) by (rule hd_in_set) simp
  show "inlet c \<in> set (z3 @ [dummy])"
    unfolding m(2) by (rule hd_in_set) simp
qed


subsection \<open>No pointer to an erased node is kept\<close>

text \<open>
  After every call the links of the sentinel and of the map's nodes, and both markers, point
  at the sentinel or at a node of the map. So the address a later \<^verbatim>\<open>map.insert\<close> receives
  never matters, and giving every new node a new address loses nothing.
\<close>

lemma dll_closed:
  assumes "dll nx pv ns" and "a \<in> set (dummy # ns)"
  shows "nx a \<in> set (dummy # ns)" and "pv a \<in> set (dummy # ns)"
proof -
  have "nx a \<in> set (dummy # ns) \<and> pv a \<in> set (dummy # ns)"
  proof (cases "a = dummy")
    case True
    have "hd (ns @ [dummy]) \<in> set (ns @ [dummy])" by (rule hd_in_set) simp
    then have "nx a \<in> set (dummy # ns)"
      unfolding True dll_next_dummy [OF assms(1)] by simp
    moreover have "last (dummy # ns) \<in> set (dummy # ns)" by (rule last_in_set) simp
    then have "pv a \<in> set (dummy # ns)"
      unfolding True dll_prev_dummy [OF assms(1)] .
    ultimately show ?thesis ..
  next
    case False
    then have "a \<in> set ns" using assms(2) by simp
    then obtain as bs where ns: "ns = as @ a # bs" by (auto simp: in_set_conv_decomp)
    have d: "dll nx pv (as @ a # bs)" using assms(1) unfolding ns .
    have "hd (bs @ [dummy]) \<in> set (bs @ [dummy])" by (rule hd_in_set) simp
    then have "nx a \<in> set (dummy # ns)"
      unfolding ns dll_next [OF d] by auto
    moreover have "last (dummy # as) \<in> set (dummy # as)" by (rule last_in_set) simp
    then have "pv a \<in> set (dummy # ns)"
      unfolding ns dll_prev [OF d] by auto
    ultimately show ?thesis ..
  qed
  then show "nx a \<in> set (dummy # ns)" and "pv a \<in> set (dummy # ns)" by simp_all
qed

lemma booked_ran:
  assumes "booked c ns"
  shows "a \<in> ran (map_kv c) \<longleftrightarrow> a \<in> set ns"
proof
  assume "a \<in> ran (map_kv c)"
  then obtain k where "map_kv c k = Some a" by (auto simp: ran_def)
  then show "a \<in> set ns" using booked_map [OF assms] by blast
next
  assume "a \<in> set ns"
  then have "map_kv c (in_map c a) = Some a" using booked_map [OF assms] by blast
  then show "a \<in> ran (map_kv c)" by (rule ranI)
qed

lemma no_dangling_pointer:
  assumes "LruCache_new conv k0 v0 sz create evict nominated_size added_size = Some c0"
    and "c = fetch_all c0 ks" and "a = dummy \<or> a \<in> ran (map_kv c)"
  shows "next c a = dummy \<or> next c a \<in> ran (map_kv c)"
    and "prev c a = dummy \<or> prev c a \<in> ran (map_kv c)"
    and "nomination c = dummy \<or> nomination c \<in> ran (map_kv c)"
    and "inlet c = dummy \<or> inlet c \<in> ran (map_kv c)"
proof -
  from reach_zoned [OF assms(1,2)] obtain p1 p2 z3 where z: "zoned c p1 p2 z3" .
  note r = booked_ran [OF zonedD(2) [OF z]]
  have a: "a \<in> set (dummy # p1 @ p2 @ z3)" using assms(3) r [of a] by simp
  note cl = dll_closed [OF zonedD(1) [OF z] a]
  show "next c a = dummy \<or> next c a \<in> ran (map_kv c)"
    using cl(1) unfolding r by simp
  show "prev c a = dummy \<or> prev c a \<in> ran (map_kv c)"
    using cl(2) unfolding r by simp
  show "nomination c = dummy \<or> nomination c \<in> ran (map_kv c)"
    using zoned_markers(1) [OF z] unfolding r by auto
  show "inlet c = dummy \<or> inlet c \<in> ran (map_kv c)"
    using zoned_markers(2) [OF z] unfolding r by auto
qed

text \<open>
  Inside \<^verbatim>\<open>add_\<close> itself an erased node can be touched. In a cache of capacity 3 with
  \<open>nominated_limit = 1\<close>, after \<^verbatim>\<open>cache[0]; cache[1]; cache[0]; cache[1]; cache[2];\<close> the
  cache is full and \<open>nomination\<close> is the node after the sentinel. \<^verbatim>\<open>cache[3]\<close> erases that
  node on line 118, and lines 120-121 then write its state and read its \<open>next\<close>. The model
  keeps the cells of an erased node, so both accesses find what the node held.
\<close>

lemma eviction_touches_erased_node:
  "cache_size drained_cache = cache_limit drained_cache"
  "map_kv drained_cache 3 = None"
  "nomination drained_cache = 1" "next drained_cache dummy = 1" "in_map drained_cache 1 = 0"
  "map_kv (snd (fetch drained_cache 3)) 0 = None"
  "state (snd (fetch drained_cache 3)) 1 = NOMINATED"
  by code_simp+

subsection \<open>The documented layout without early hits\<close>

lemma add_state:
  assumes "state c n = DETACHED"
  shows "state (LruCache_add c n) =
     (if cache_limit c \<le> cache_size c then (state c)(n := ADDED, nomination c := NOMINATED)
      else if cache_size c < nominated_limit c then (state c)(n := NOMINATED)
      else if cache_size c = nominated_limit c then (state c)(n := ADDED)
      else (state c)(n := ADDED, prev c (inlet c) := REUSED))"
  using assms by (simp add: LruCache_add_def add_cascade_def Let_def)

lemma linked_appendD:
  "linked nx pv (xs @ ys) \<Longrightarrow> linked nx pv xs \<and> linked nx pv ys"
  by (induction nx pv xs rule: linked.induct) (auto elim: linked.elims)

lemma linked_prefix_snoc:
  assumes "linked nx pv (xs @ y # ys)"
  shows "linked nx pv (xs @ [y])"
  using linked_append [of nx pv xs y ys] assms by simp

lemma walk_linked:
  assumes "linked nx pv (xs @ [t])" and "t \<notin> set xs" and "length xs \<le> fuel"
  shows "walk nx fuel (hd (xs @ [t])) t = Some xs"
  using assms
proof (induction xs arbitrary: fuel)
  case Nil
  then show ?case by (cases fuel) simp_all
next
  case (Cons a xs)
  then obtain f where f: "fuel = Suc f" by (cases fuel) auto
  have "nx a = hd (xs @ [t])" using Cons.prems(1) by (cases xs) auto
  moreover have "linked nx pv (xs @ [t])" using Cons.prems(1) by (cases xs) auto
  ultimately show ?case using Cons f by simp
qed


lemma distinct_length_bound:
  assumes "distinct ns" and "\<forall>a\<in>set ns. a < (k::nat)"
  shows "length ns \<le> k"
proof -
  have "set ns \<subseteq> {..<k}" using assms(2) by auto
  then have "card (set ns) \<le> card {..<k}" by (intro card_mono) simp_all
  then show ?thesis using assms(1) by (simp add: distinct_card)
qed

lemma zoned_zones:
  assumes z: "zoned c p1 p2 z3"
  shows "zones c = Some (p1, p2, z3)"
proof -
  note m = markedD [OF zonedD(3) [OF z]]
  note d = zonedD(1) [OF z]
  have ds: "distinct (dummy # p1 @ p2 @ z3)" by (rule dll_distinct [OF d])
  have "\<forall>a\<in>set (p1 @ p2 @ z3). a < fresh c" using zonedD(2) [OF z] by (simp add: booked_def)
  moreover have "distinct (p1 @ p2 @ z3)" using ds by simp
  ultimately have len: "length (p1 @ p2 @ z3) \<le> fresh c" by (rule distinct_length_bound [rotated])
  let ?i = "hd (z3 @ [dummy])"
  let ?n = "hd (p2 @ [?i])"
  have ni: "hd (p2 @ z3 @ [dummy]) = ?n" by (cases p2) simp_all
  have "linked (next c) (prev c) ([dummy] @ p1 @ p2 @ z3 @ [dummy])"
    using d by (simp add: dll_def)
  then have l1: "linked (next c) (prev c) (p1 @ p2 @ z3 @ [dummy])"
    by (rule linked_appendD [THEN conjunct2])
  then have l2: "linked (next c) (prev c) (p2 @ z3 @ [dummy])"
    by (rule linked_appendD [THEN conjunct2])
  then have l3: "linked (next c) (prev c) (z3 @ [dummy])"
    by (rule linked_appendD [THEN conjunct2])
  have e2: "p2 @ z3 @ [dummy] = ?n # tl (p2 @ z3 @ [dummy])"
    using ni by (cases p2; cases z3) auto
  have e3: "z3 @ [dummy] = ?i # tl (z3 @ [dummy])"
    by (cases z3) auto
  have "linked (next c) (prev c) (p1 @ ?n # tl (p2 @ z3 @ [dummy]))"
    using l1 e2 by simp
  then have w1l: "linked (next c) (prev c) (p1 @ [?n])" by (rule linked_prefix_snoc)
  have "linked (next c) (prev c) (p2 @ ?i # tl (z3 @ [dummy]))"
    using l2 e3 by simp
  then have w2l: "linked (next c) (prev c) (p2 @ [?i])" by (rule linked_prefix_snoc)
  have in_n: "?n \<in> set (p2 @ z3 @ [dummy])" unfolding ni [symmetric] by (rule hd_in_set) simp
  have in_i: "?i \<in> set (z3 @ [dummy])" by (rule hd_in_set) simp
  have n1: "?n \<notin> set p1" using in_n ds by auto
  have n2: "?i \<notin> set p2" using in_i ds by auto
  have n3: "dummy \<notin> set z3" using ds by simp
  have st: "next c dummy = hd (p1 @ [?n])"
    using dll_next_dummy [OF d] ni by (cases p1) simp_all
  have w1: "walk (next c) (fresh c) (next c dummy) (nomination c) = Some p1"
    unfolding st m(1) ni using len by (intro walk_linked [OF w1l n1]) simp
  have w2: "walk (next c) (fresh c) (nomination c) (inlet c) = Some p2"
    unfolding m(1) m(2) ni using len by (intro walk_linked [OF w2l n2]) simp
  have w3: "walk (next c) (fresh c) (inlet c) dummy = Some z3"
    unfolding m(2) using len by (intro walk_linked [OF l3 n3]) simp
  show ?thesis by (simp add: zones_def w1 w2 w3)
qed

lemma strictD:
  assumes "strict c p1 p2 z3"
  shows "zoned c p1 p2 z3" and "\<And>a. a \<in> set p1 \<Longrightarrow> state c a = NOMINATED"
    and "\<And>a. a \<in> set p2 \<Longrightarrow> state c a = ADDED"
    and "int (length p1) = min (cache_size c) (nominated_limit c)"
  using assms by (simp_all add: strict_def)

lemma strict_layout:
  assumes "strict c p1 p2 z3"
  shows "layout_ok c"
proof -
  note s = strictD [OF assms]
  note m = markedD [OF zonedD(3) [OF s(1)]]
  show ?thesis
    using s(2,3) m(4) by (simp add: layout_ok_def zoned_zones [OF s(1)] list_all_iff)
qed


lemma strict_use:
  assumes s: "strict c p1 p2 z3" and n: "n \<in> set (p1 @ p2 @ z3)"
    and late: "state c n = NOMINATED \<longrightarrow> nominated_limit c + 1 < cache_size c"
  shows "\<exists>p1' p2' z3'. strict (LruCache_use c n) p1' p2' z3'"
proof (cases "state c n = NOMINATED")
  case False
  then have "LruCache_use c n = c" by (simp add: LruCache_use_def)
  then show ?thesis using s by auto
next
  case st: True
  note sd = strictD [OF s]
  note z = sd(1)
  note m = markedD [OF zonedD(3) [OF z]]
  have big: "nominated_limit c + 1 < cache_size c" using late st by simp
  then have "z3 \<noteq> []" "p2 \<noteq> []" using m(8,9) by auto
  then obtain i z3' q p2' where z3: "z3 = i # z3'" and p2: "p2 = q # p2'"
    by (cases z3; cases p2) auto
  from zoned_nominated_in_p1(1) [OF z n st] obtain xs ys where p1: "p1 = xs @ n # ys"
    by (auto simp: in_set_conv_decomp)
  have sq: "state c q = ADDED" using sd(3) p2 by simp
  have si: "state c i = REUSED" using m(4) z3 by simp
  note z' = z [unfolded p1 p2 z3]
  note zn = use_zoned_cascade2 [OF z' st sq]
  have ds: "distinct (dummy # xs @ n # ys @ q # p2' @ i # z3')"
    using dll_distinct [OF zonedD(1) [OF z']] by simp
  have mk: "nomination c = q" "inlet c = i" using m(1,2) p2 z3 by simp_all
  have nn: "nomination c \<noteq> n" "inlet c \<noteq> n" using mk ds by auto
  have su: "state (LruCache_use c n) = (state c)(n := REUSED, q := NOMINATED, i := ADDED)"
    using use_state [OF st nn] mk sq si ds by auto
  have a: "\<forall>a\<in>set (xs @ ys @ [q]). state (LruCache_use c n) a = NOMINATED"
    unfolding su using sd(2) p1 ds by auto
  have b: "\<forall>a\<in>set (p2' @ [i]). state (LruCache_use c n) a = ADDED"
    unfolding su using sd(3) p2 ds by auto
  have l: "int (length (xs @ ys @ [q])) = min (cache_size (LruCache_use c n))
             (nominated_limit (LruCache_use c n))"
    using sd(4) p1 by (simp add: use_frame LruCache_use_def use_cascade_def Let_def)
  have "strict (LruCache_use c n) (xs @ ys @ [q]) (p2' @ [i]) (z3' @ [n])"
    unfolding strict_def using zn a b l by blast
  then show ?thesis by blast
qed


lemma add_sizes:
  assumes "state c n = DETACHED"
  shows "nominated_limit (LruCache_add c n) = nominated_limit c"
    and "cache_size (LruCache_add c n) =
           (if cache_size c < cache_limit c then cache_size c + 1 else cache_size c)"
  using assms by (simp_all add: LruCache_add_def add_cascade_def Let_def)

lemma strict_add:
  assumes s: "strict c p1 p2 z3" and k: "map_kv c key = None"
  shows "\<exists>p1' p2' z3'. strict (LruCache_add (map_insert c key v) (fresh c)) p1' p2' z3'"
proof -
  let ?r = "fresh c"
  let ?c' = "LruCache_add (map_insert c key v) ?r"
  note sd = strictD [OF s]
  note z = sd(1)
  note m = markedD [OF zonedD(3) [OF z]]
  note b = zonedD(2) [OF z]
  note fr = zoned_fresh [OF z]
  have ds: "distinct (dummy # p1 @ p2 @ z3)" by (rule dll_distinct [OF zonedD(1) [OF z]])
  have det: "state (map_insert c key v) ?r = DETACHED" by simp
  note st = add_state [OF det, simplified]
  note sz = add_sizes [OF det, simplified]
  have lims: "nominated_limit c + 1 < cache_limit c" using b by (simp add: booked_def)
  consider (nominated) "cache_size c < nominated_limit c"
    | (first_added) "cache_size c = nominated_limit c"
    | (grow) "nominated_limit c < cache_size c" "cache_size c < cache_limit c"
    | (evict) "cache_limit c \<le> cache_size c"
    by linarith
  then show ?thesis
  proof cases
    case nominated
    note zn = add_zoned_nominated [OF z k nominated, of v]
    have su: "state ?c' = (state c)(?r := NOMINATED)"
      using st nominated lims by simp
    have "strict ?c' (p1 @ [?r]) [] []"
      unfolding strict_def su using zn sd(2,4) fr nominated lims
      by (auto simp: su sz)
    then show ?thesis by blast
  next
    case first_added
    note zn = add_zoned_first_added [OF z k first_added, of v]
    have su: "state ?c' = (state c)(?r := ADDED)"
      using st first_added lims by simp
    have "strict ?c' p1 [?r] []"
      unfolding strict_def su using zn sd(2,4) fr first_added lims
      by (auto simp: su sz)
    then show ?thesis by blast
  next
    case grow
    note zn = add_zoned_grow [OF z k grow, of v]
    have ne: "p2 \<noteq> []" using m(8) grow by auto
    have d0: "dll (next c) (prev c) ((p1 @ p2) @ z3)" using zonedD(1) [OF z] by simp
    have pl: "prev c (inlet c) = last p2"
      using dll_cut_prev [OF d0] m(2) ne by simp
    have su: "state ?c' = (state c)(?r := ADDED, last p2 := REUSED)"
      using st grow pl by simp
    have lp: "last p2 \<in> set p2" using ne by simp
    have "distinct (butlast p2 @ [last p2])" using ne ds by simp
    then have lb: "last p2 \<notin> set (butlast p2)" by simp
    have a: "\<forall>a\<in>set p1. state ?c' a = NOMINATED"
      unfolding su using sd(2) fr lp ds by auto
    have bb: "\<forall>a\<in>set (butlast p2 @ [?r]). state ?c' a = ADDED"
      unfolding su using sd(3) fr lp lb by (auto dest: in_set_butlastD)
    have l: "int (length p1) = min (cache_size ?c') (nominated_limit ?c')"
      using sd(4) grow by (simp add: sz)
    have "strict ?c' p1 (butlast p2 @ [?r]) (last p2 # z3)"
      unfolding strict_def using zn a bb l by blast
    then show ?thesis by blast
  next
    case evict
    have big: "nominated_limit c + 1 < cache_size c" using lims evict by simp
    then have ne: "z3 \<noteq> []" "p2 \<noteq> []" using m(8,9) by auto
    then obtain i z3' q p2' where z3: "z3 = i # z3'" and p2: "p2 = q # p2'"
      by (cases z3; cases p2) auto
    have "0 < nominated_limit c" using b by (simp add: booked_def)
    then have "0 < int (length p1)" using sd(4) big by simp
    then obtain f p1' where p1: "p1 = f # p1'" by (cases p1) auto
    note zn = add_zoned_evict [OF z [unfolded p1 p2 z3] k evict, of v]
    have su: "state ?c' = (state c)(?r := ADDED, q := NOMINATED)"
      using st evict m(1) p2 by simp
    have a: "\<forall>a\<in>set (p1' @ [q]). state ?c' a = NOMINATED"
      unfolding su using sd(2) fr p1 p2 ds by auto
    have bb: "\<forall>a\<in>set (p2' @ [?r]). state ?c' a = ADDED"
      unfolding su using sd(3) fr p1 p2 ds by auto
    have l: "int (length (p1' @ [q])) = min (cache_size ?c') (nominated_limit ?c')"
      using sd(4) evict p1 b by (simp add: sz booked_def)
    have "strict ?c' (p1' @ [q]) (p2' @ [?r]) (i # z3')"
      unfolding strict_def using zn a bb l by blast
    then show ?thesis by blast
  qed
qed


lemma strict_calls [simp]: "strict (c\<lparr>calls := x\<rparr>) p1 p2 z3 = strict c p1 p2 z3"
  by (simp add: strict_def)

lemma strict_new:
  assumes "LruCache_new conv k0 v0 sz create evict nominated_size added_size = Some c"
  shows "strict c [] [] []"
proof -
  note z = well_formed_new [OF assms]
  have "cache_size c = 0" using assms by (auto simp: LruCache_new_def Let_def split: if_splits)
  moreover have "0 < nominated_limit c" using zonedD(2) [OF z] by (simp add: booked_def)
  ultimately show ?thesis using z by (simp add: strict_def)
qed

lemma strict_fetch:
  assumes s: "strict c p1 p2 z3" and h: "no_early_hit c [key]"
  shows "\<exists>p1' p2' z3'. strict (snd (fetch c key)) p1' p2' z3'"
proof (cases "map_kv c key")
  case None
  show ?thesis
  proof (cases "on_create c")
    case n: None
    from strict_add [OF s None, of "of_key c key"] show ?thesis using None n
      by (simp add: fetch_def Let_def)
  next
    case (Some f)
    have s': "strict (c\<lparr>calls := calls c @ [Create key]\<rparr>) p1 p2 z3" using s by simp
    have "map_kv (c\<lparr>calls := calls c @ [Create key]\<rparr>) key = None" using None by simp
    from strict_add [OF s' this, of "f key"] show ?thesis using None Some
      by (simp add: fetch_def Let_def)
  qed
next
  case (Some n)
  then have n: "n \<in> set (p1 @ p2 @ z3)"
    using booked_map [OF zonedD(2) [OF strictD(1) [OF s]]] by blast
  have "state c n = NOMINATED \<longrightarrow> nominated_limit c + 1 < cache_size c"
    using h Some by simp
  from strict_use [OF s n this] show ?thesis using Some
    by (simp add: fetch_def Let_def)
qed

lemma strict_fetch_all:
  assumes "strict c p1 p2 z3" and "no_early_hit c ks"
  shows "\<exists>p1' p2' z3'. strict (fetch_all c ks) p1' p2' z3'"
  using assms
proof (induction ks arbitrary: c p1 p2 z3)
  case Nil
  then show ?case by auto
next
  case (Cons k ks)
  from Cons.prems(2) have h: "no_early_hit c [k]" and t: "no_early_hit (snd (fetch c k)) ks"
    by simp_all
  from strict_fetch [OF Cons.prems(1) h] obtain q1 q2 q3
    where "strict (snd (fetch c k)) q1 q2 q3" by blast
  from Cons.IH [OF this t] show ?case by simp
qed

text \<open>
  The documented layout is kept as long as no \<^verbatim>\<open>NOMINATED\<close> entry is fetched again before
  the cache holds \<open>nominated_limit + 2\<close> entries, that is, before \<open>inlet\<close> has left the
  sentinel; and then a full cache evicts a \<^verbatim>\<open>NOMINATED\<close> entry.
\<close>

lemma layout_kept:
  assumes "LruCache_new conv k0 v0 sz create evict nominated_size added_size = Some c0"
    and "no_early_hit c0 ks"
  shows "layout_ok (fetch_all c0 ks)"
proof -
  from strict_fetch_all [OF strict_new [OF assms(1)] assms(2)] obtain p1 p2 z3
    where "strict (fetch_all c0 ks) p1 p2 z3" by blast
  then show ?thesis by (rule strict_layout)
qed

lemma evicted_nominated_kept:
  assumes "LruCache_new conv k0 v0 sz create evict nominated_size added_size = Some c0"
    and "no_early_hit c0 ks" and "c = fetch_all c0 ks" and "cache_size c = cache_limit c"
  shows "state c (next c dummy) = NOMINATED"
proof -
  from strict_fetch_all [OF strict_new [OF assms(1)] assms(2)] assms(3) obtain p1 p2 z3
    where s: "strict c p1 p2 z3" by blast
  note sd = strictD [OF s]
  note b = zonedD(2) [OF sd(1)]
  have "0 < nominated_limit c" "nominated_limit c < cache_size c"
    using b assms(4) by (simp_all add: booked_def)
  then have "0 < int (length p1)" using sd(4) by simp
  then obtain f p1' where p1: "p1 = f # p1'" by (cases p1) auto
  have "next c dummy = f"
    using dll_next_dummy [OF zonedD(1) [OF sd(1)]] p1 by simp
  then show ?thesis using sd(2) p1 by simp
qed

lemma layout_kept_test:
  "no_early_hit test_cache [0, 1, 2, 3, 4, 2, 4, 3, 5]"
  by code_simp

section \<open>The claims\<close>

subsection \<open>The zone layout\<close>

text \<open>
  C1. The claim: after every \<^verbatim>\<open>operator[]\<close> call the walk from the tail meets \<^verbatim>\<open>NOMINATED\<close>
  nodes only up to \<open>nomination\<close>, then \<^verbatim>\<open>ADDED\<close> nodes only up to \<open>inlet\<close>, then \<^verbatim>\<open>REUSED\<close>
  nodes only. The code breaks it: on the cache of the test, \<^verbatim>\<open>cache[0]; cache[0];\<close> leaves
  both markers at the sentinel and the only node, which the first walk visits, \<^verbatim>\<open>REUSED\<close>.
  What does hold after every call is \<open>well_formed\<close> (lemma \<open>well_formed_reachable\<close>), and the
  layout itself holds in the runs without such an early hit (lemma \<open>layout_kept\<close>).
\<close>

theorem layout_broken:
  "zones (fetch_all test_cache [0, 0]) = Some ([1], [], [])
   \<and> state (fetch_all test_cache [0, 0]) 1 = REUSED
   \<and> \<not> layout_ok (fetch_all test_cache [0, 0])"
  by code_simp

subsection \<open>Promotion of a node on probation\<close>

text \<open>
  C2, as stated, fails: with two keys in the cache of the test both markers are at the
  sentinel, and promoting the node of key 0 turns no node \<^verbatim>\<open>NOMINATED\<close>.
\<close>

theorem promotion_relabels_none:
  "map_kv (fetch_all test_cache [0, 1]) 0 = Some 1
   \<and> state (fetch_all test_cache [0, 1]) 1 = NOMINATED
   \<and> turned_nominated (fetch_all test_cache [0, 1])
        (LruCache_use (fetch_all test_cache [0, 1]) 1) = []"
  by code_simp

text \<open>
  C2, amended. In every state a validly constructed cache reaches, \<^verbatim>\<open>use_\<close> on the node of
  a key whose state is \<^verbatim>\<open>NOMINATED\<close> puts the node next to the sentinel on the head side and
  makes it \<^verbatim>\<open>REUSED\<close>; the node at \<open>nomination\<close> turns \<^verbatim>\<open>NOMINATED\<close> when its state is
  \<^verbatim>\<open>ADDED\<close>, and no node turns \<^verbatim>\<open>NOMINATED\<close> otherwise.
\<close>

theorem promotion_law:
  assumes "LruCache_new conv k0 v0 sz create evict nominated_size added_size = Some c0"
    and "c = fetch_all c0 ks" and "map_kv c key = Some n" and "state c n = NOMINATED"
  shows "prev (LruCache_use c n) dummy = n \<and> next (LruCache_use c n) n = dummy
     \<and> state (LruCache_use c n) n = REUSED
     \<and> turned_nominated c (LruCache_use c n)
         = (if state c (nomination c) = ADDED then [nomination c] else [])"
proof -
  from reach_zoned [OF assms(1,2)] obtain p1 p2 z3 where z: "zoned c p1 p2 z3" .
  note st = assms(4)
  note m = markedD [OF zonedD(3) [OF z]]
  have n: "n \<in> set (p1 @ p2 @ z3)"
    using booked_map [OF zonedD(2) [OF z]] assms(3) by blast
  note np = zoned_nominated_in_p1 [OF z n st]
  from np(1) obtain xs ys where p1: "p1 = xs @ n # ys"
    by (auto simp: in_set_conv_decomp)
  have d: "dll (next c) (prev c) (xs @ n # (ys @ p2 @ z3))"
    using zonedD(1) [OF z] p1 by simp
  have d': "dll (next (LruCache_use c n)) (prev (LruCache_use c n)) ((xs @ ys @ p2 @ z3) @ n # [])"
    using move_to_head_dll [OF d] by (simp add: use_links [OF st])
  have a: "prev (LruCache_use c n) dummy = n"
    using dll_prev_dummy [OF d'] by simp
  have b: "next (LruCache_use c n) n = dummy"
    using dll_next [OF d'] by simp
  have nn: "nomination c \<noteq> n" "inlet c \<noteq> n"
    using zoned_markers [OF z] np by auto
  note s = use_state [OF st nn]
  have c: "state (LruCache_use c n) n = REUSED"
    unfolding s using nn by simp
  have e: "turned_nominated c (LruCache_use c n)
         = (if state c (nomination c) = ADDED then [nomination c] else [])"
  proof (cases "state c (nomination c) = ADDED")
    case False
    then show ?thesis unfolding turned_nominated_def s
      by (simp add: filter_empty_conv)
  next
    case True
    then have "nomination c \<noteq> dummy" using m(3) by (cases "nomination c = dummy") simp_all
    then have "nomination c \<in> set (p1 @ p2 @ z3)" using zoned_markers(1) [OF z] by auto
    then have lt: "nomination c < fresh c" using zonedD(2) [OF z] by (auto simp: booked_def)
    have "filter (\<lambda>m. state c m \<noteq> NOMINATED \<and> state (LruCache_use c n) m = NOMINATED)
            [0..<fresh c] = [nomination c]"
      by (rule filter_upt_single [OF lt]) (use True st nn in \<open>auto simp: s\<close>)
    then show ?thesis using True by (simp add: turned_nominated_def)
  qed
  show ?thesis using a b c e by blast
qed

theorem promotion_law_witness:
  "LruCache_new int_of_key 0 0 4 (Some (\<lambda>v. v * 10)) True 0 0 = Some test_cache
   \<and> full_cache = fetch_all test_cache [0, 1, 2, 3]
   \<and> map_kv full_cache 0 = Some 1 \<and> state full_cache 1 = NOMINATED
   \<and> (prev (LruCache_use full_cache 1) dummy = 1 \<and> next (LruCache_use full_cache 1) 1 = dummy
     \<and> state (LruCache_use full_cache 1) 1 = REUSED
     \<and> turned_nominated full_cache (LruCache_use full_cache 1)
         = (if state full_cache (nomination full_cache) = ADDED then [nomination full_cache]
            else []))"
proof -
  have a: "map_kv full_cache 0 = Some 1" by code_simp
  have b: "state full_cache 1 = NOMINATED" by code_simp
  show ?thesis
    by (intro conjI test_cache_new full_cache_def a b
        promotion_law [OF test_cache_new full_cache_def a b, THEN conjunct1]
        promotion_law [OF test_cache_new full_cache_def a b, THEN conjunct2, THEN conjunct1]
        promotion_law [OF test_cache_new full_cache_def a b, THEN conjunct2, THEN conjunct2,
          THEN conjunct1]
        promotion_law [OF test_cache_new full_cache_def a b, THEN conjunct2, THEN conjunct2,
          THEN conjunct2])
qed

subsection \<open>Eviction\<close>

text \<open>
  In every state a validly constructed cache reaches, a miss at capacity erases the entry
  of the node after the sentinel, which is in the map, and hands its key and value to the
  observer when there is one.
\<close>

lemma eviction_takes_tail:
  assumes "LruCache_new conv k0 v0 sz create evict nominated_size added_size = Some c0"
    and "c = fetch_all c0 ks" and "map_kv c key = None" and "cache_size c = cache_limit c"
  shows "map_kv c (in_map c (next c dummy)) = Some (next c dummy)"
    and "map_kv (snd (fetch c key)) = (map_kv c)(key \<mapsto> fresh c, in_map c (next c dummy) := None)"
    and "calls (snd (fetch c key)) =
          calls c @ (case on_create c of None \<Rightarrow> [] | Some f \<Rightarrow> [Create key])
            @ (if on_evict c then [Evict (in_map c (next c dummy)) (value c (next c dummy))]
               else [])"
proof -
  from reach_zoned [OF assms(1,2)] obtain p1 p2 z3 where z: "zoned c p1 p2 z3" .
  have f: "cache_limit c \<le> cache_size c" using assms(4) by simp
  note t = zoned_tail [OF z f]
  show "map_kv c (in_map c (next c dummy)) = Some (next c dummy)" by (rule t(3))
  show "map_kv (snd (fetch c key)) = (map_kv c)(key \<mapsto> fresh c, in_map c (next c dummy) := None)"
    by (rule fetch_miss_evict(1) [OF assms(3) f t(2)])
  show "calls (snd (fetch c key)) =
          calls c @ (case on_create c of None \<Rightarrow> [] | Some f \<Rightarrow> [Create key])
            @ (if on_evict c then [Evict (in_map c (next c dummy)) (value c (next c dummy))]
               else [])"
    by (rule fetch_miss_evict(2) [OF assms(3) f t(2)])
qed

text \<open>
  C3. The claim: the entry a miss at capacity removes is the node after the sentinel, a
  \<^verbatim>\<open>NOMINATED\<close> one, and the observer receives its key and value. The code removes that
  node whatever its state: on the cache of the test, after
  \<^verbatim>\<open>cache[1]; cache[1]; cache[2]; cache[3]; cache[4];\<close> the cache is full, key 5 is missing,
  and the node after the sentinel holds key 1 and is \<^verbatim>\<open>REUSED\<close>; \<^verbatim>\<open>cache[5]\<close> evicts it.
  In the runs without an early hit the evicted node is \<^verbatim>\<open>NOMINATED\<close> (lemma
  \<open>evicted_nominated_kept\<close>).
\<close>

theorem evicts_reused_entry:
  "cache_size early_hit_cache = cache_limit early_hit_cache
   \<and> map_kv early_hit_cache 5 = None
   \<and> state early_hit_cache (next early_hit_cache dummy) = REUSED
   \<and> in_map early_hit_cache (next early_hit_cache dummy) = 1
   \<and> value early_hit_cache (next early_hit_cache dummy) = 10
   \<and> map_kv (snd (fetch early_hit_cache 5)) 1 = None
   \<and> calls (snd (fetch early_hit_cache 5)) = calls early_hit_cache @ [Create 5, Evict 1 10]"
  by code_simp

subsection \<open>The entry count\<close>

text \<open>
  C4. In every state a validly constructed cache reaches, the map holds \<open>cache_size\<close>
  entries and \<open>cache_size\<close> is at most \<open>cache_limit\<close>, the capacity given to the
  constructor; a miss while \<open>cache_size\<close> equals
  \<open>cache_limit\<close> leaves \<open>cache_size\<close> at \<open>cache_limit\<close>, adds the key, erases exactly one key
  that was in the map, and calls the observer (when there is one) once, for that key.
\<close>

theorem count_within_capacity:
  assumes "LruCache_new conv k0 v0 sz create evict nominated_size added_size = Some c0"
    and "c = fetch_all c0 ks"
  shows "int (card (dom (map_kv c))) = cache_size c \<and> cache_size c \<le> cache_limit c \<and>
         cache_limit c = sz \<and>
         (map_kv c key = None \<and> cache_size c = cache_limit c \<longrightarrow>
            cache_size (snd (fetch c key)) = cache_limit c \<and>
            in_map c (next c dummy) \<in> dom (map_kv c) \<and>
            dom (map_kv (snd (fetch c key)))
              = insert key (dom (map_kv c) - {in_map c (next c dummy)}) \<and>
            calls (snd (fetch c key)) =
              calls c @ (case on_create c of None \<Rightarrow> [] | Some f \<Rightarrow> [Create key])
                @ (if on_evict c
                   then [Evict (in_map c (next c dummy)) (value c (next c dummy))] else []))"
proof -
  from reach_zoned [OF assms] obtain p1 p2 z3 where z: "zoned c p1 p2 z3" .
  have a: "int (card (dom (map_kv c))) = cache_size c" by (rule zoned_card(2) [OF z])
  have b: "cache_size c \<le> cache_limit c" using zonedD(2) [OF z] by (simp add: booked_def)
  have l: "cache_limit c = sz"
    using fetch_all_config [of c0 ks] new_config(4) [OF assms(1)] assms(2) by simp
  have c: "cache_size (snd (fetch c key)) = cache_limit c \<and>
            in_map c (next c dummy) \<in> dom (map_kv c) \<and>
            dom (map_kv (snd (fetch c key)))
              = insert key (dom (map_kv c) - {in_map c (next c dummy)}) \<and>
            calls (snd (fetch c key)) =
              calls c @ (case on_create c of None \<Rightarrow> [] | Some f \<Rightarrow> [Create key])
                @ (if on_evict c
                   then [Evict (in_map c (next c dummy)) (value c (next c dummy))] else [])"
    if k: "map_kv c key = None" and full: "cache_size c = cache_limit c"
  proof -
    have f: "cache_limit c \<le> cache_size c" using full by simp
    note t = zoned_tail [OF z f]
    note e = fetch_miss_evict [OF k f t(2)]
    have "in_map c (next c dummy) \<noteq> key" using t(3) k by auto
    then have "dom (map_kv (snd (fetch c key)))
              = insert key (dom (map_kv c) - {in_map c (next c dummy)})"
      unfolding e(1) by auto
    then show ?thesis using e(2,3) t(3) full by auto
  qed
  show ?thesis using a b l c by blast
qed

theorem count_within_capacity_witness:
  "LruCache_new int_of_key 0 0 4 (Some (\<lambda>v. v * 10)) True 0 0 = Some test_cache
   \<and> full_cache = fetch_all test_cache [0, 1, 2, 3]
   \<and> (map_kv full_cache 4 = None \<and> cache_size full_cache = cache_limit full_cache)
   \<and> int (card (dom (map_kv full_cache))) = cache_size full_cache
   \<and> cache_size full_cache \<le> cache_limit full_cache
   \<and> cache_limit full_cache = 4
   \<and> cache_size (snd (fetch full_cache 4)) = cache_limit full_cache
   \<and> in_map full_cache (next full_cache dummy) \<in> dom (map_kv full_cache)
   \<and> dom (map_kv (snd (fetch full_cache 4)))
       = insert 4 (dom (map_kv full_cache) - {in_map full_cache (next full_cache dummy)})"
proof -
  have h: "map_kv full_cache 4 = None \<and> cache_size full_cache = cache_limit full_cache"
    by code_simp
  show ?thesis
    using count_within_capacity [OF test_cache_new full_cache_def, of 4] h
      test_cache_new full_cache_def
    by blast
qed

subsection \<open>The two boundary steps\<close>

text \<open>
  The step of the eviction branch never moves \<open>inlet\<close>, and the cascade of \<^verbatim>\<open>use_\<close> does
  nothing unless the node at \<open>nomination\<close> is \<^verbatim>\<open>ADDED\<close>.
\<close>

lemma add_cascade_inlet: "inlet (add_cascade c) = inlet c"
  by (simp add: add_cascade_def Let_def)

lemma use_cascade_guard: "state c (nomination c) \<noteq> ADDED \<Longrightarrow> use_cascade c = c"
  by (simp add: use_cascade_def)

lemma add_cascade_frame:
  "on_evict (add_cascade c) = on_evict c" "calls (add_cascade c) = calls c"
  by (simp_all add: add_cascade_def Let_def)

text \<open>
  \<open>mid_insert\<close> is the state in which the fifth insertion of the test runs its boundary step.
\<close>

lemma full_cache_facts:
  "map_kv full_cache 4 = None" "cache_size full_cache = 4" "cache_limit full_cache = 4"
  "fresh full_cache = 5" "in_map full_cache (next full_cache dummy) = 0"
  "value full_cache (next full_cache dummy) = 0" "next full_cache dummy \<noteq> 5"
  by code_simp+

lemma full_cache_config:
  "on_create full_cache = Some (\<lambda>v. v * 10)" "on_evict full_cache"
  using fetch_all_config [of test_cache "[0, 1, 2, 3]"] new_config [OF test_cache_new]
  by (simp_all add: full_cache_def)

lemma mid_insert_fetch:
  "snd (fetch full_cache 4) = (add_cascade mid_insert)\<lparr>calls := calls mid_insert @ [Evict 0 0]\<rparr>"
  by (simp add: fetch_def LruCache_add_def mid_insert_def Let_def full_cache_facts
      full_cache_config add_cascade_frame)

lemma add_split:
  assumes "state c n = DETACHED" and "cache_limit c \<le> cache_size c"
  shows "LruCache_add c n =
     (if on_evict c
      then (add_cascade (add_before_step c n))
             \<lparr>calls := calls (add_before_step c n)
                @ [Evict (in_map c (next c dummy)) (value c (next c dummy))]\<rparr>
      else add_cascade (add_before_step c n))"
  using assms
  by (simp add: LruCache_add_def add_before_step_def Let_def add_cascade_frame)

lemma fetch_split:
  assumes "map_kv c key = None" and "cache_limit c \<le> cache_size c"
    and "next c dummy \<noteq> fresh c"
  shows "snd (fetch c key) =
     (if on_evict c
      then (add_cascade (miss_before_step c key))
             \<lparr>calls := calls (miss_before_step c key)
                @ [Evict (in_map c (next c dummy)) (value c (next c dummy))]\<rparr>
      else add_cascade (miss_before_step c key))"
  using assms
  by (simp add: fetch_def miss_before_step_def Let_def add_split split: option.splits)

text \<open>
  The state of the test's fifth insertion is an instance.
\<close>

lemma mid_insert_eq: "mid_insert = miss_before_step full_cache 4"
  by (simp add: mid_insert_def miss_before_step_def add_before_step_def Let_def
      full_cache_facts full_cache_config)

lemma before_step_fields:
  "state (add_before_step c n) = (state c)(n := ADDED)"
  "nomination (add_before_step c n) = nomination c"
  "inlet (add_before_step c n) = inlet c"
  by (simp_all add: add_before_step_def Let_def)

lemma miss_before_step_fields:
  "state (miss_before_step c key) = (state c)(fresh c := ADDED)"
  "nomination (miss_before_step c key) = nomination c"
  "inlet (miss_before_step c key) = inlet c"
  by (simp_all add: miss_before_step_def before_step_fields Let_def split: option.splits)

lemma miss_before_step_links:
  "next (miss_before_step c key) =
     next (LruCache_insert_before (LruCache_remove c (next c dummy)) (inlet c) (fresh c))"
  "prev (miss_before_step c key) =
     prev (LruCache_insert_before (LruCache_remove c (next c dummy)) (inlet c) (fresh c))"
  by (simp_all add: miss_before_step_def add_before_step_def Let_def LruCache_insert_before_eq
      LruCache_remove_eq split: option.splits)

text \<open>The state in which a full cache runs lines 120-121, in terms of the zones.\<close>

lemma zoned_before_step:
  assumes z: "zoned c p1 p2 z3" and full: "cache_limit c \<le> cache_size c"
  shows "state (miss_before_step c key) (inlet (miss_before_step c key)) = REUSED"
    and "inlet (miss_before_step c key) \<noteq> nomination (miss_before_step c key)"
    and "state (miss_before_step c key) (nomination (miss_before_step c key)) \<noteq> NOMINATED"
    and "next (miss_before_step c key) (inlet (miss_before_step c key))
           \<noteq> inlet (miss_before_step c key)"
proof -
  let ?m = "miss_before_step c key"
  note m = markedD [OF zonedD(3) [OF z]]
  note b = zonedD(2) [OF z]
  note fr = zoned_fresh [OF z]
  have "nominated_limit c + 1 < cache_size c" using b full by (simp add: booked_def)
  then have ne: "z3 \<noteq> []" "p2 \<noteq> []" using m(8,9) by auto
  then obtain i z3' q p2' where z3: "z3 = i # z3'" and p2: "p2 = q # p2'"
    by (cases z3; cases p2) auto
  obtain f rest where fr2: "p1 @ p2 = f # rest" using p2 by (cases p1) auto
  have d0: "dll (next c) (prev c) ([] @ f # (rest @ i # z3'))"
    using zonedD(1) [OF z] fr2 z3 by (metis append_Nil append_assoc append_Cons)
  have ds: "distinct (dummy # p1 @ q # p2' @ i # z3')"
    using dll_distinct [OF zonedD(1) [OF z]] p2 z3 by simp
  have ds': "distinct (dummy # f # rest @ i # z3')"
    using dll_distinct [OF d0] by simp
  have mk: "nomination c = q" "inlet c = i" using m(1,2) p2 z3 by simp_all
  have nf: "next c dummy = f" using dll_next_dummy [OF d0] by simp
  have si: "state c i = REUSED" using m(4) z3 by simp
  have sq: "state c q \<noteq> NOMINATED" using m(5) p2 by simp
  have ir: "i \<noteq> fresh c" "q \<noteq> fresh c" using fr p2 z3 by auto
  show "state ?m (inlet ?m) = REUSED"
    using si ir mk by (simp add: miss_before_step_fields)
  show "inlet ?m \<noteq> nomination ?m"
    using mk ds by (auto simp: miss_before_step_fields)
  show "state ?m (nomination ?m) \<noteq> NOMINATED"
    using sq ir mk by (simp add: miss_before_step_fields)
  have d1: "dll (next (LruCache_remove c f)) (prev (LruCache_remove c f)) (rest @ (i # z3'))"
    using remove_dll [OF d0] by simp
  have rn: "fresh c \<notin> set (dummy # rest @ i # z3')"
  proof -
    have "set (f # rest) = set (p1 @ p2)" using fr2 by simp
    then have "set rest \<subseteq> set p1 \<union> set p2" by auto
    then show ?thesis using fr z3 by auto
  qed
  have "dll (next (LruCache_insert_before (LruCache_remove c f) i (fresh c)))
            (prev (LruCache_insert_before (LruCache_remove c f) i (fresh c)))
            (rest @ fresh c # (i # z3'))"
    by (rule insert_dll [OF d1 rn]) simp
  then have "dll (next ?m) (prev ?m) ((rest @ [fresh c]) @ i # z3')"
    by (simp add: miss_before_step_links nf mk)
  then have "next ?m i = hd (z3' @ [dummy])" by (rule dll_next)
  moreover have "hd (z3' @ [dummy]) \<in> set (z3' @ [dummy])" by (rule hd_in_set) simp
  moreover have "i \<notin> set (z3' @ [dummy])" using ds by auto
  ultimately show "next ?m (inlet ?m) \<noteq> inlet ?m"
    using mk by (auto simp: miss_before_step_fields)
qed


text \<open>
  The two steps do coincide where the node at \<open>nomination\<close> is \<^verbatim>\<open>ADDED\<close> and the node at
  \<open>inlet\<close> is not \<^verbatim>\<open>REUSED\<close>. Lines 120-121 never run in such a state: whenever they run,
  the node at \<open>inlet\<close> is \<^verbatim>\<open>REUSED\<close>.
\<close>

lemma cascades_coincide:
  assumes "state c (nomination c) = ADDED" and "state c (inlet c) \<noteq> REUSED"
  shows "add_cascade c = use_cascade c"
  using assms by (simp add: add_cascade_def use_cascade_def Let_def)

text \<open>
  C5, as stated, fails: in the middle of the fifth insertion of the test the node at
  \<open>inlet\<close> is \<^verbatim>\<open>REUSED\<close>, so the cascade of \<^verbatim>\<open>use_\<close> would move \<open>inlet\<close>, and the step of
  \<^verbatim>\<open>add_\<close> does not.
\<close>

theorem cascade_differ:
  "inlet (add_cascade mid_insert) \<noteq> inlet (use_cascade mid_insert)"
  by code_simp

text \<open>
  C5, amended. For a validly constructed cache, in every state it reaches and for every
  missing key fetched at capacity: \<^verbatim>\<open>add_\<close> ends with its boundary step (and the call of the
  observer); the step relabels the node at \<open>nomination\<close> \<^verbatim>\<open>NOMINATED\<close> and advances that
  marker, testing no state and leaving \<open>inlet\<close> alone, which is the first step of the cascade
  of \<^verbatim>\<open>use_\<close> without its guard. The node at \<open>inlet\<close> is \<^verbatim>\<open>REUSED\<close> there, so the cascade of
  \<^verbatim>\<open>use_\<close> in that state is another transformation: when the node at \<open>nomination\<close> is
  \<^verbatim>\<open>ADDED\<close> it is the step of \<^verbatim>\<open>add_\<close> followed by relabelling the node at \<open>inlet\<close> \<^verbatim>\<open>ADDED\<close>
  and advancing \<open>inlet\<close>, and otherwise it changes nothing. The two never give the same
  cache.
\<close>

theorem insertion_step_not_cascade:
  assumes "LruCache_new conv k0 v0 sz create evict nominated_size added_size = Some c0"
    and "c = fetch_all c0 ks" and "map_kv c key = None" and "cache_size c = cache_limit c"
  shows "snd (fetch c key) =
           (if on_evict c
            then (add_cascade (miss_before_step c key))
                   \<lparr>calls := calls (miss_before_step c key)
                      @ [Evict (in_map c (next c dummy)) (value c (next c dummy))]\<rparr>
            else add_cascade (miss_before_step c key))
     \<and> add_cascade (miss_before_step c key) =
           (miss_before_step c key)
             \<lparr>state := (state (miss_before_step c key))
                         (nomination (miss_before_step c key) := NOMINATED),
              nomination := next (miss_before_step c key)
                              (nomination (miss_before_step c key))\<rparr>
     \<and> state (miss_before_step c key) (inlet (miss_before_step c key)) = REUSED
     \<and> use_cascade (miss_before_step c key) =
           (if state (miss_before_step c key) (nomination (miss_before_step c key)) = ADDED
            then (add_cascade (miss_before_step c key))
                   \<lparr>state := (state (add_cascade (miss_before_step c key)))
                               (inlet (miss_before_step c key) := ADDED),
                    inlet := next (miss_before_step c key) (inlet (miss_before_step c key))\<rparr>
            else miss_before_step c key)
     \<and> use_cascade (miss_before_step c key) \<noteq> add_cascade (miss_before_step c key)"
proof -
  let ?m = "miss_before_step c key"
  from reach_zoned [OF assms(1,2)] obtain p1 p2 z3 where z: "zoned c p1 p2 z3" .
  have full: "cache_limit c \<le> cache_size c" using assms(4) by simp
  note t = zoned_tail [OF z full]
  note b = zoned_before_step [OF z full, of key]
  have f1: "snd (fetch c key) =
           (if on_evict c
            then (add_cascade ?m)
                   \<lparr>calls := calls ?m
                      @ [Evict (in_map c (next c dummy)) (value c (next c dummy))]\<rparr>
            else add_cascade ?m)"
    by (rule fetch_split [OF assms(3) full t(2)])
  have f2: "add_cascade ?m =
           ?m\<lparr>state := (state ?m)(nomination ?m := NOMINATED),
              nomination := next ?m (nomination ?m)\<rparr>"
    by (simp add: add_cascade_def Let_def)
  have f4: "use_cascade ?m =
           (if state ?m (nomination ?m) = ADDED
            then (add_cascade ?m)
                   \<lparr>state := (state (add_cascade ?m))(inlet ?m := ADDED),
                    inlet := next ?m (inlet ?m)\<rparr>
            else ?m)"
    using b(1,2) by (simp add: use_cascade_def add_cascade_def Let_def)
  have f5: "use_cascade ?m \<noteq> add_cascade ?m"
  proof (cases "state ?m (nomination ?m) = ADDED")
    case True
    then have "inlet (use_cascade ?m) = next ?m (inlet ?m)" by (simp add: f4)
    moreover have "inlet (add_cascade ?m) = inlet ?m" by (rule add_cascade_inlet)
    ultimately show ?thesis using b(4) by metis
  next
    case False
    then have "state (use_cascade ?m) (nomination ?m) = state ?m (nomination ?m)"
      by (simp add: f4)
    moreover have "state (add_cascade ?m) (nomination ?m) = NOMINATED" by (simp add: f2)
    ultimately show ?thesis using b(3) by metis
  qed
  show ?thesis using f1 f2 b(1) f4 f5 by blast
qed

theorem insertion_step_not_cascade_witness:
  "LruCache_new int_of_key 0 0 4 (Some (\<lambda>v. v * 10)) True 0 0 = Some test_cache
   \<and> full_cache = fetch_all test_cache [0, 1, 2, 3]
   \<and> map_kv full_cache 4 = None \<and> cache_size full_cache = cache_limit full_cache
   \<and> state (miss_before_step full_cache 4) (inlet (miss_before_step full_cache 4)) = REUSED
   \<and> use_cascade (miss_before_step full_cache 4) =
           (if state (miss_before_step full_cache 4)
                 (nomination (miss_before_step full_cache 4)) = ADDED
            then (add_cascade (miss_before_step full_cache 4))
                   \<lparr>state := (state (add_cascade (miss_before_step full_cache 4)))
                               (inlet (miss_before_step full_cache 4) := ADDED),
                    inlet := next (miss_before_step full_cache 4)
                               (inlet (miss_before_step full_cache 4))\<rparr>
            else miss_before_step full_cache 4)
   \<and> use_cascade (miss_before_step full_cache 4) \<noteq> add_cascade (miss_before_step full_cache 4)"
proof -
  have a: "map_kv full_cache 4 = None" by code_simp
  have b: "cache_size full_cache = cache_limit full_cache" by code_simp
  show ?thesis
    using insertion_step_not_cascade [OF test_cache_new full_cache_def a b]
      test_cache_new full_cache_def a b
    by blast
qed


subsection \<open>The value of a new entry\<close>

text \<open>
  C6, as stated, fails: without a factory the cache of \<^verbatim>\<open>int\<close> keys and values stores
  \<^verbatim>\<open>int(7)\<close> for the key 7, not the value-initialised \<^verbatim>\<open>int\<close>.
\<close>

theorem no_factory_not_default:
  "fst (fetch plain_cache 7) \<noteq> int_default"
  by code_simp

text \<open>
  C6, amended. For a cache constructed without a factory, in every state it reaches, a
  fetch of a missing key stores and returns \<^verbatim>\<open>V(key)\<close>, the value converted from the key.
\<close>

theorem no_factory_value:
  assumes "LruCache_new conv k0 v0 sz None evict nominated_size added_size = Some c0"
    and "c = fetch_all c0 ks" and "map_kv c key = None"
  shows "fst (fetch c key) = conv key
     \<and> map_kv (snd (fetch c key)) key = Some (fresh c)
     \<and> value (snd (fetch c key)) (fresh c) = conv key"
proof -
  from reach_zoned [OF assms(1,2)] obtain p1 p2 z3 where z: "zoned c p1 p2 z3" .
  note k = assms(3)
  have cfg: "on_create c = None" "of_key c = conv"
    using fetch_all_config [of c0 ks] new_config [OF assms(1)] assms(2) by simp_all
  have v: "fst (fetch c key) = conv key"
    using fetch_miss(1) [OF k] cfg by simp
  have m: "map_kv (snd (fetch c key)) key = Some (fresh c)"
  proof (cases "cache_size c < cache_limit c")
    case True
    then show ?thesis using fetch_miss_warmup(1) [OF k] by simp
  next
    case False
    then have f: "cache_limit c \<le> cache_size c" by simp
    note t = zoned_tail [OF z f]
    have "in_map c (next c dummy) \<noteq> key" using t(3) k by auto
    then show ?thesis using fetch_miss_evict(1) [OF k f t(2)] by simp
  qed
  show ?thesis using v m fetch_miss(2) [OF k] by simp
qed

theorem no_factory_value_witness:
  "LruCache_new int_of_key 0 0 4 None False 0 0 = Some plain_cache
   \<and> plain_full = fetch_all plain_cache [0, 1, 2, 3]
   \<and> map_kv plain_full 7 = None
   \<and> fst (fetch plain_full 7) = int_of_key 7
   \<and> map_kv (snd (fetch plain_full 7)) 7 = Some (fresh plain_full)
   \<and> value (snd (fetch plain_full 7)) (fresh plain_full) = int_of_key 7"
proof -
  have a: "map_kv plain_full 7 = None" by code_simp
  show ?thesis
    using no_factory_value [OF plain_cache_new plain_full_def a] plain_cache_new plain_full_def a
    by blast
qed

subsection \<open>Promotion of a node that is not on probation\<close>

text \<open>
  C7. For a node whose state is \<^verbatim>\<open>ADDED\<close> or \<^verbatim>\<open>REUSED\<close>, \<^verbatim>\<open>use_\<close> returns at once: the
  whole cache (links, state tags, both markers, everything else) is what it was.
\<close>

theorem use_noop:
  "state c n = ADDED \<or> state c n = REUSED \<Longrightarrow> LruCache_use c n = c"
  by (auto simp: LruCache_use_def)

theorem use_noop_witness:
  "(state full_cache 3 = ADDED \<or> state full_cache 3 = REUSED)
   \<and> LruCache_use full_cache 3 = full_cache"
proof -
  have a: "state full_cache 3 = ADDED \<or> state full_cache 3 = REUSED"
    by code_simp
  show ?thesis by (intro conjI a use_noop [OF a])
qed

subsection \<open>Fetching a key twice\<close>

text \<open>
  C8. In every state a validly constructed cache reaches, and for every key, a fetch
  followed at once by a fetch of the same key returns the same value twice, and the second
  call makes no callback (neither factory nor observer) and leaves the map and the entry
  count as the first call left them.
\<close>

theorem refetch_same:
  assumes "LruCache_new conv k0 v0 sz create evict nominated_size added_size = Some c0"
    and "c = fetch_all c0 ks"
  shows "fst (fetch (snd (fetch c key)) key) = fst (fetch c key)
     \<and> calls (snd (fetch (snd (fetch c key)) key)) = calls (snd (fetch c key))
     \<and> map_kv (snd (fetch (snd (fetch c key)) key)) = map_kv (snd (fetch c key))
     \<and> cache_size (snd (fetch (snd (fetch c key)) key)) = cache_size (snd (fetch c key))"
proof -
  from reach_zoned [OF assms] obtain p1 p2 z3 where z: "zoned c p1 p2 z3" .
  let ?c1 = "snd (fetch c key)"
  have "\<exists>i. map_kv ?c1 key = Some i \<and> fst (fetch c key) = value ?c1 i"
  proof (cases "map_kv c key")
    case (Some i)
    then show ?thesis by (simp add: fetch_hit use_frame)
  next
    case None
    have "map_kv ?c1 key = Some (fresh c)"
    proof (cases "cache_size c < cache_limit c")
      case True
      then show ?thesis using fetch_miss_warmup(1) [OF None] by simp
    next
      case False
      then have f: "cache_limit c \<le> cache_size c" by simp
      note t = zoned_tail [OF z f]
      have "in_map c (next c dummy) \<noteq> key" using t(3) None by auto
      then show ?thesis using fetch_miss_evict(1) [OF None f t(2)] by simp
    qed
    then show ?thesis using fetch_miss(2) [OF None] by blast
  qed
  then obtain i where i: "map_kv ?c1 key = Some i" "fst (fetch c key) = value ?c1 i"
    by blast
  show ?thesis using i(2) by (simp add: fetch_hit [OF i(1)] use_frame)
qed

theorem refetch_same_witness:
  "LruCache_new int_of_key 0 0 4 (Some (\<lambda>v. v * 10)) True 0 0 = Some test_cache
   \<and> full_cache = fetch_all test_cache [0, 1, 2, 3]
   \<and> fst (fetch (snd (fetch full_cache 4)) 4) = fst (fetch full_cache 4)
   \<and> calls (snd (fetch (snd (fetch full_cache 4)) 4)) = calls (snd (fetch full_cache 4))
   \<and> map_kv (snd (fetch (snd (fetch full_cache 4)) 4)) = map_kv (snd (fetch full_cache 4))
   \<and> cache_size (snd (fetch (snd (fetch full_cache 4)) 4))
       = cache_size (snd (fetch full_cache 4))"
  using refetch_same [OF test_cache_new full_cache_def, of 4] test_cache_new full_cache_def
  by blast

subsection \<open>A hit changes neither the map nor the values\<close>



subsection \<open>A miss below capacity\<close>

text \<open>
  C10. A fetch of a missing key while \<open>cache_size < cache_limit\<close> adds the key to the map and
  removes none, calls the factory (when there is one) and never the observer, and raises
  the entry count by one.
\<close>

theorem warmup_miss:
  assumes "map_kv c key = None" and "cache_size c < cache_limit c"
  shows "map_kv (snd (fetch c key)) = (map_kv c)(key \<mapsto> fresh c)
     \<and> dom (map_kv (snd (fetch c key))) = insert key (dom (map_kv c))
     \<and> calls (snd (fetch c key)) =
          calls c @ (case on_create c of None \<Rightarrow> [] | Some f \<Rightarrow> [Create key])
     \<and> cache_size (snd (fetch c key)) = cache_size c + 1"
  using fetch_miss_warmup [OF assms] by simp

theorem warmup_miss_witness:
  "map_kv (fetch_all test_cache [0, 1]) 2 = None
   \<and> cache_size (fetch_all test_cache [0, 1]) < cache_limit (fetch_all test_cache [0, 1])
   \<and> map_kv (snd (fetch (fetch_all test_cache [0, 1]) 2))
        = (map_kv (fetch_all test_cache [0, 1]))(2 \<mapsto> fresh (fetch_all test_cache [0, 1]))
   \<and> dom (map_kv (snd (fetch (fetch_all test_cache [0, 1]) 2)))
        = insert 2 (dom (map_kv (fetch_all test_cache [0, 1])))
   \<and> calls (snd (fetch (fetch_all test_cache [0, 1]) 2)) =
          calls (fetch_all test_cache [0, 1])
          @ (case on_create (fetch_all test_cache [0, 1]) of None \<Rightarrow> []
             | Some f \<Rightarrow> [Create 2])
   \<and> cache_size (snd (fetch (fetch_all test_cache [0, 1]) 2))
        = cache_size (fetch_all test_cache [0, 1]) + 1"
proof -
  have a: "map_kv (fetch_all test_cache [0, 1]) 2 = None"
    by code_simp
  have b: "cache_size (fetch_all test_cache [0, 1]) < cache_limit (fetch_all test_cache [0, 1])"
    by code_simp
  show ?thesis using warmup_miss [OF a b] a b by blast
qed

end
